theory Spec2Isabelle
  imports Complex_Main "HOL-Library.Sublist"
begin

section \<open>Python strings\<close>

text \<open>
  A Python \<open>str\<close> is modelled as a \<open>string\<close>: one \<open>char\<close> per code point, for the
  code points below 256. Exceptions are values of \<open>exn\<close>; a computation that can raise
  returns \<open>exn + 'a\<close> with \<open>Inl\<close> for the raised exception.
\<close>

datatype exn =
    IndexError
  | KeyError string
  | ValueError
  | TypeError
  | AttributeError
  | UnboundLocalError
  | OSError
  | JSONDecodeError
  | ModelFailure string

text \<open>\<open>str.isspace\<close> on one character (code points below 256).\<close>

definition is_space :: "char \<Rightarrow> bool" where
  "is_space c = (let n = of_char c :: nat in
     (9 \<le> n \<and> n \<le> 13) \<or> (28 \<le> n \<and> n \<le> 32) \<or> n = 133 \<or> n = 160)"

definition lstrip :: "string \<Rightarrow> string" where
  "lstrip s = dropWhile is_space s"

definition rstrip :: "string \<Rightarrow> string" where
  "rstrip s = rev (dropWhile is_space (rev s))"

text \<open>\<open>s.strip()\<close>\<close>

definition strip :: "string \<Rightarrow> string" where
  "strip s = rstrip (lstrip s)"

text \<open>\<open>s.split(c)\<close> for a separator of one character: never an empty list.\<close>

fun split_on :: "char \<Rightarrow> string \<Rightarrow> string list" where
  "split_on c [] = [[]]"
| "split_on c (x # xs) =
     (if x = c then [] # split_on c xs
      else (let r = split_on c xs in (x # hd r) # tl r))"

text \<open>\<open>s.split()\<close>: the maximal runs of non-whitespace characters.\<close>

fun split_ws_acc :: "string \<Rightarrow> string \<Rightarrow> string list" where
  "split_ws_acc w [] = (if w = [] then [] else [w])"
| "split_ws_acc w (x # xs) =
     (if is_space x then (if w = [] then split_ws_acc [] xs else w # split_ws_acc [] xs)
      else split_ws_acc (w @ [x]) xs)"

definition split_ws :: "string \<Rightarrow> string list" where
  "split_ws s = split_ws_acc [] s"

text \<open>\<open>sep.join(parts)\<close>\<close>

fun join :: "string \<Rightarrow> string list \<Rightarrow> string" where
  "join sep [] = []"
| "join sep [p] = p"
| "join sep (p # q # ps) = p @ sep @ join sep (q # ps)"

text \<open>
  \<open>s.replace(old, new)\<close>: the non-overlapping occurrences of \<open>old\<close>, found from left to
  right, are replaced. With an empty \<open>old\<close> Python puts \<open>new\<close> before every character and
  at the end.
\<close>

function replace_str :: "string \<Rightarrow> string \<Rightarrow> string \<Rightarrow> string" where
  "replace_str old new [] = (if old = [] then new else [])"
| "replace_str old new (x # xs) =
     (if old = [] then new @ x # replace_str old new xs
      else if prefix old (x # xs) then new @ replace_str old new (drop (length old) (x # xs))
      else x # replace_str old new xs)"
  by pat_completeness auto
termination
  by (relation "measure (\<lambda>(old, new, s). length s)") (auto simp: neq_Nil_conv)


section \<open>eval_pypinyin.py: parsing a label line\<close>

text \<open>
  Lines 24 to 29 of the script, for one line of the label file: the line is stripped, an
  empty line or a comment is skipped (\<open>Inr None\<close>), and \<open>line[:-1]\<close> is split on the
  bar into exactly three fields; any other number of fields raises \<open>ValueError\<close> at
  the unpacking.
\<close>

definition split_fields :: "string \<Rightarrow> exn + (string \<times> string \<times> string) option" where
  "split_fields line0 =
     (let line = strip line0 in
      if line = [] \<or> hd line = CHR 0x0A \<or> hd line = CHR ''#'' then Inr None
      else (case split_on CHR ''|'' (butlast line) of
              [filename, label, character] \<Rightarrow> Inr (Some (filename, label, character))
            | _ \<Rightarrow> Inl ValueError))"

text \<open>Lines 30 to 33: both label fields are split at \<open>$\<close> and \<open>%\<close> and each part stripped.\<close>

definition split_phrases :: "string \<Rightarrow> string list" where
  "split_phrases s = map strip (split_on CHR ''%'' (replace_str ''$'' ''%'' s))"

definition parse_line :: "string \<Rightarrow> exn + (string \<times> string list \<times> string list) option" where
  "parse_line line0 =
     (case split_fields line0 of
        Inl e \<Rightarrow> Inl e
      | Inr None \<Rightarrow> Inr None
      | Inr (Some (filename, label, character)) \<Rightarrow>
          Inr (Some (filename, split_phrases label, split_phrases character)))"


section \<open>char2pinyin.py: rewriting a manifest\<close>

text \<open>
  The value that \<open>json.loads\<close> returns. A JSON object is a Python \<open>dict\<close>, which keeps
  its keys in insertion order: an association list, read with \<open>dict_get\<close> and written
  with \<open>dict_set\<close>.
\<close>

datatype jval =
    JStr string
  | JNum int
  | JBool bool
  | JNull
  | JArr "jval list"
  | JObj "(string \<times> jval) list"

text \<open>\<open>d[k]\<close>: a missing key raises \<open>KeyError\<close>.\<close>

definition dict_get :: "(string \<times> jval) list \<Rightarrow> string \<Rightarrow> exn + jval" where
  "dict_get d k = (case map_of d k of None \<Rightarrow> Inl (KeyError k) | Some v \<Rightarrow> Inr v)"

text \<open>\<open>d[k] = v\<close>: an existing key keeps its place, a new key goes to the end.\<close>

fun dict_set :: "string \<Rightarrow> jval \<Rightarrow> (string \<times> jval) list \<Rightarrow> (string \<times> jval) list" where
  "dict_set k v [] = [(k, v)]"
| "dict_set k v ((k', v') # d) = (if k = k' then (k, v) # d else (k', v') # dict_set k v d)"

text \<open>\<open>line[k]\<close> on whatever \<open>json.loads\<close> returned: only a dict can be read by a string key.\<close>

definition subscript :: "jval \<Rightarrow> string \<Rightarrow> exn + jval" where
  "subscript v k = (case v of JObj d \<Rightarrow> dict_get d k | _ \<Rightarrow> Inl TypeError)"

text \<open>\<open>v.replace(old, new)\<close>: only a \<open>str\<close> has the method.\<close>

definition str_replace :: "jval \<Rightarrow> string \<Rightarrow> string \<Rightarrow> exn + string" where
  "str_replace v old new = (case v of JStr s \<Rightarrow> Inr (replace_str old new s) | _ \<Rightarrow> Inl AttributeError)"

text \<open>\<open>[p[0] for p in pred]\<close>: an empty \<open>p\<close> raises \<open>IndexError\<close>.\<close>

fun firsts :: "string list list \<Rightarrow> exn + string list" where
  "firsts [] = Inr []"
| "firsts (p # ps) =
     (case p of [] \<Rightarrow> Inl IndexError
      | x # _ \<Rightarrow> (case firsts ps of Inl e \<Rightarrow> Inl e | Inr xs \<Rightarrow> Inr (x # xs)))"

text \<open>
  Lines 24 to 30 for one parsed line. \<open>pinyin\<close> is the call
  \<open>pypinyin.pinyin(_, style=NORMAL, neutral_tone_with_five=True)\<close> of the external
  library: a list of candidate lists, or an exception.
\<close>

definition convert_entry :: "(jval \<Rightarrow> exn + string list list) \<Rightarrow> jval \<Rightarrow> exn + jval" where
  "convert_entry pinyin line =
     (case subscript line ''audio_filepath'' of Inl e \<Rightarrow> Inl e | Inr a \<Rightarrow>
      case str_replace a ''/NeMo'' [] of Inl e \<Rightarrow> Inl e | Inr path \<Rightarrow>
      case line of JObj d \<Rightarrow>
        (let d1 = dict_set ''audio_filepath'' (JStr path) d in
         case dict_get d1 ''text'' of Inl e \<Rightarrow> Inl e | Inr t \<Rightarrow>
         case pinyin t of Inl e \<Rightarrow> Inl e | Inr pred \<Rightarrow>
         case firsts pred of Inl e \<Rightarrow> Inl e | Inr pred1 \<Rightarrow>
           Inr (JObj (dict_set ''text'' (JStr (join '' '' pred1)) d1)))
      | _ \<Rightarrow> Inl TypeError)"

text \<open>
  Lines 17 to 32: the loop over the lines of the input file. The result is what has been
  written to the output file and the exception that ended the loop, if any.
  \<open>loads\<close> and \<open>dumps\<close> are \<open>json.loads\<close> and \<open>json.dumps\<close>.
\<close>

fun convert_lines ::
  "(string \<Rightarrow> exn + jval) \<Rightarrow> (jval \<Rightarrow> string) \<Rightarrow> (jval \<Rightarrow> exn + string list list) \<Rightarrow>
   string list \<Rightarrow> string list \<times> exn option" where
  "convert_lines loads dumps pinyin [] = ([], None)"
| "convert_lines loads dumps pinyin (line # rest) =
     (if line = [] then convert_lines loads dumps pinyin rest
      else case loads line of Inl e \<Rightarrow> ([], Some e) | Inr v \<Rightarrow>
           case convert_entry pinyin v of Inl e \<Rightarrow> ([], Some e) | Inr v' \<Rightarrow>
             (let (out, r) = convert_lines loads dumps pinyin rest
              in ((dumps v' @ [CHR 0x0A]) # out, r)))"

section \<open>punctuate_capitalize_infer.py: the regular expressions\<close>

definition is_digit :: "char \<Rightarrow> bool" where
  "is_digit c = (let n = of_char c :: nat in 48 \<le> n \<and> n \<le> 57)"

definition is_letter :: "char \<Rightarrow> bool" where
  "is_letter c = (let n = of_char c :: nat in (65 \<le> n \<and> n \<le> 90) \<or> (97 \<le> n \<and> n \<le> 122))"

text \<open>\<open>PUNCTUATION = re.compile("[.,?]")\<close>\<close>

definition is_punct :: "char \<Rightarrow> bool" where
  "is_punct c = (c = CHR ''.'' \<or> c = CHR '','' \<or> c = CHR ''?'')"

text \<open>\<open>PUNCTUATION.sub('', s)\<close>\<close>

definition remove_punct :: "string \<Rightarrow> string" where
  "remove_punct s = filter (\<lambda>c. \<not> is_punct c) s"

text \<open>Lower case of an ASCII letter, for matching under \<open>re.I\<close>.\<close>

definition to_lower :: "char \<Rightarrow> char" where
  "to_lower c = (let n = of_char c :: nat in if 65 \<le> n \<and> n \<le> 90 then char_of (n + 32) else c)"

text \<open>
  \<open>DECIMAL = re.compile("[0-9]+[.,?]? point([.,?]? [0-9])+", flags=re.I)\<close>, matched at the
  start of a string; each function returns what it matched and the rest. Every piece of
  the pattern is greedy, and no shorter choice can make a later piece match (after a
  shorter run of digits comes a digit, after a skipped punctuation mark comes that mark,
  and both pieces that follow start with a space), so the greedy choice is the only one
  to try.
\<close>

fun match_opt_punct :: "string \<Rightarrow> string \<times> string" where
  "match_opt_punct [] = ([], [])"
| "match_opt_punct (c # s) = (if is_punct c then ([c], s) else ([], c # s))"

fun match_point :: "string \<Rightarrow> (string \<times> string) option" where
  "match_point (c0 # c1 # c2 # c3 # c4 # c5 # r) =
     (if map to_lower [c0, c1, c2, c3, c4, c5] = '' point'' then Some ([c0, c1, c2, c3, c4, c5], r)
      else None)"
| "match_point s = None"

fun match_groups :: "string \<Rightarrow> string \<times> string" where
  "match_groups (a # b # c # s) =
     (if is_punct a \<and> b = CHR '' '' \<and> is_digit c then
        (let (m, r) = match_groups s in (a # b # c # m, r))
      else if a = CHR '' '' \<and> is_digit b then
        (let (m, r) = match_groups (c # s) in (a # b # m, r))
      else ([], a # b # c # s))"
| "match_groups [a, b] = (if a = CHR '' '' \<and> is_digit b then ([a, b], []) else ([], [a, b]))"
| "match_groups s = ([], s)"

definition match_decimal :: "string \<Rightarrow> (string \<times> string) option" where
  "match_decimal s =
     (let ds = takeWhile is_digit s; r1 = dropWhile is_digit s in
      if ds = [] then None
      else (let (p, r2) = match_opt_punct r1 in
            case match_point r2 of
              None \<Rightarrow> None
            | Some (pt, r3) \<Rightarrow>
                (let (g, r4) = match_groups r3 in
                 if g = [] then None else Some (ds @ p @ pt @ g, r4))))"

text \<open>
  \<open>decimal_repl(match)\<close>, given \<open>match.group(0)\<close>. \<open>parts[0]\<close> raises \<open>IndexError\<close> on an
  empty list; \<open>parts[2:]\<close> never raises.
\<close>

definition decimal_repl :: "string \<Rightarrow> exn + string" where
  "decimal_repl m =
     (let text = remove_punct m; parts = split_ws text in
      case parts of [] \<Rightarrow> Inl IndexError
      | p0 # _ \<Rightarrow> Inr (p0 @ ''.'' @ concat (drop 2 parts)))"

text \<open>
  \<open>DECIMAL.sub(decimal_repl, s)\<close>: the string is scanned from the left; where the pattern
  matches, the replacement is emitted and the scan goes on after the match, elsewhere the
  character is copied. The first argument counts the characters of a match still to skip.
\<close>

fun decimal_sub_from :: "nat \<Rightarrow> string \<Rightarrow> exn + string" where
  "decimal_sub_from k [] = Inr []"
| "decimal_sub_from (Suc k) (c # s) = decimal_sub_from k s"
| "decimal_sub_from 0 (c # s) =
     (case match_decimal (c # s) of
        None \<Rightarrow> (case decimal_sub_from 0 s of Inl e \<Rightarrow> Inl e | Inr out \<Rightarrow> Inr (c # out))
      | Some (m, r) \<Rightarrow>
          (case decimal_repl m of Inl e \<Rightarrow> Inl e
           | Inr t \<Rightarrow> (case decimal_sub_from (length m - 1) s of
                         Inl e \<Rightarrow> Inl e | Inr out \<Rightarrow> Inr (t @ out))))"

definition decimal_sub :: "string \<Rightarrow> exn + string" where
  "decimal_sub s = decimal_sub_from 0 s"

text \<open>\<open>SPACE_DEDUP.sub(' ', s)\<close> with \<open>SPACE_DEDUP = re.compile(r' +')\<close>\<close>

fun space_dedup :: "string \<Rightarrow> string" where
  "space_dedup (a # b # s) =
     (if a = CHR '' '' \<and> b = CHR '' '' then space_dedup (b # s) else a # space_dedup (b # s))"
| "space_dedup s = s"

text \<open>\<open>LEFT_PUNCTUATION_STRIP_PATTERN.sub('', s)\<close> with the pattern \<open>^[^a-zA-Z]+\<close>\<close>

definition left_punct_strip :: "string \<Rightarrow> string" where
  "left_punct_strip s = dropWhile (\<lambda>c. \<not> is_letter c) s"

text \<open>
  \<open>RIGHT_PUNCTUATION_STRIP_PATTERN.sub('', s)\<close> with the pattern \<open>[^a-zA-Z]$\<close>. The
  \<open>$\<close> matches at the end of the string and before a newline that ends the string, so
  on a string ending in a newline both the newline and a non-letter before it are removed.
\<close>

definition right_punct_strip :: "string \<Rightarrow> string" where
  "right_punct_strip s =
     (if s = [] then []
      else if last s = CHR 0x0A then
        (let t = butlast s in if t \<noteq> [] \<and> \<not> is_letter (last t) then butlast t else t)
      else if \<not> is_letter (last s) then butlast s
      else s)"

text \<open>
  \<open>c.islower()\<close> and \<open>c.upper()\<close> for the first character of a text after
  \<open>left_punct_strip\<close>, which is an ASCII letter.
\<close>

definition is_lower :: "char \<Rightarrow> bool" where
  "is_lower c = (let n = of_char c :: nat in 97 \<le> n \<and> n \<le> 122)"

definition to_upper :: "char \<Rightarrow> char" where
  "to_upper c = (let n = of_char c :: nat in if 97 \<le> n \<and> n \<le> 122 then char_of (n - 32) else c)"

section \<open>punctuate_capitalize_infer.py: main\<close>

text \<open>
  The namespace returned by \<open>get_args\<close>, without the options that only choose and place
  the model (the loaded model is a parameter of \<open>main\<close> below). A path is a string,
  \<open>None\<close> is \<open>None\<close>.
\<close>

record args =
  input_manifest :: "string option"
  input_text :: "string option"
  output_manifest :: "string option"
  output_text :: "string option"
  max_seq_length :: int
  step :: int
  margin :: int
  batch_size :: int
  save_labels_instead_of_text :: bool
  not_add_cls_and_sep_tokens :: bool
  make_queries_contain_intact_sentences :: bool
  no_all_upper_label :: bool
  fix_decimals :: bool
  pickled_features :: "string option"

text \<open>The arguments of the call \<open>model.add_punctuation_capitalization(...)\<close> at line 236.\<close>

record apc_call =
  apc_queries :: "jval list"
  apc_batch_size :: int
  apc_max_seq_length :: int
  apc_step :: int
  apc_margin :: int
  apc_return_labels :: bool
  apc_num_workers :: int
  apc_pin_memory :: bool
  apc_add_cls_and_sep_tokens :: bool
  apc_pickled_features :: "string option"

text \<open>
  The file system: the text of every file that exists. The external model is a state
  \<open>'m\<close> and a function from the state and the arguments of a call to the exception raised
  or the list returned, and the next state; so the calls made can be counted.
\<close>

type_synonym files = "string \<rightharpoonup> string"

type_synonym 'm model = "'m \<Rightarrow> apc_call \<Rightarrow> (exn + string list) \<times> 'm"

text \<open>
  \<open>for line in f\<close> on a file opened in text mode: a line ends at a newline, at a
  carriage return or at a carriage return followed by a newline, and each of the three
  is read as a newline.
\<close>

fun file_lines :: "string \<Rightarrow> string list" where
  "file_lines [] = []"
| "file_lines [c] = (if c = CHR 0x0A \<or> c = CHR 0x0D then [[CHR 0x0A]] else [[c]])"
| "file_lines (c # d # s) =
     (if c = CHR 0x0D \<and> d = CHR 0x0A then [CHR 0x0A] # file_lines s
      else if c = CHR 0x0A \<or> c = CHR 0x0D then [CHR 0x0A] # file_lines (d # s)
      else (case file_lines (d # s) of [] \<Rightarrow> [[c]] | l # ls \<Rightarrow> (c # l) # ls))"

text \<open>\<open>path.open()\<close> for reading.\<close>

definition open_read :: "files \<Rightarrow> string \<Rightarrow> exn + string list" where
  "open_read fs p = (case fs p of None \<Rightarrow> Inl OSError | Some t \<Rightarrow> Inr (file_lines t))"

text \<open>\<open>load_manifest\<close>; \<open>loads\<close> is \<open>json.loads\<close>.\<close>

fun loads_all :: "(string \<Rightarrow> exn + jval) \<Rightarrow> string list \<Rightarrow> exn + jval list" where
  "loads_all loads [] = Inr []"
| "loads_all loads (line # rest) =
     (case loads line of Inl e \<Rightarrow> Inl e
      | Inr data \<Rightarrow> (case loads_all loads rest of Inl e \<Rightarrow> Inl e | Inr result \<Rightarrow> Inr (data # result)))"

definition load_manifest :: "(string \<Rightarrow> exn + jval) \<Rightarrow> files \<Rightarrow> string \<Rightarrow> exn + jval list" where
  "load_manifest loads fs manifest =
     (case open_read fs manifest of Inl e \<Rightarrow> Inl e | Inr ls \<Rightarrow> loads_all loads ls)"

text \<open>
  \<open>"pred_text" in manifest[0]\<close>: a key of a dict, an element of a list, a substring of a
  string; any other value is not a container.
\<close>

definition contains :: "jval \<Rightarrow> string \<Rightarrow> exn + bool" where
  "contains v k =
     (case v of
        JObj d \<Rightarrow> Inr (k \<in> fst ` set d)
      | JArr l \<Rightarrow> Inr (JStr k \<in> set l)
      | JStr s \<Rightarrow> Inr (list_ex (\<lambda>i. prefix k (drop i s)) [0 ..< Suc (length s)])
      | _ \<Rightarrow> Inl TypeError)"

text \<open>\<open>for item in manifest: texts.append(item[text_key])\<close>\<close>

fun item_texts :: "string \<Rightarrow> jval list \<Rightarrow> exn + jval list" where
  "item_texts text_key [] = Inr []"
| "item_texts text_key (item # rest) =
     (case subscript item text_key of Inl e \<Rightarrow> Inl e
      | Inr t \<Rightarrow> (case item_texts text_key rest of Inl e \<Rightarrow> Inl e | Inr ts \<Rightarrow> Inr (t # ts)))"

text \<open>
  Lines 225 to 235. The result holds \<open>manifest\<close> and \<open>text_key\<close>, which are bound only
  on the manifest path, and \<open>texts\<close>.
\<close>

definition read_inputs ::
  "args \<Rightarrow> (string \<Rightarrow> exn + jval) \<Rightarrow> files \<Rightarrow> exn + ((jval list \<times> string) option \<times> jval list)" where
  "read_inputs a loads fs =
     (case input_manifest a of
        None \<Rightarrow>
          (case input_text a of
             None \<Rightarrow> Inl AttributeError
           | Some p \<Rightarrow>
               (case open_read fs p of Inl e \<Rightarrow> Inl e
                | Inr ls \<Rightarrow> Inr (None, map (\<lambda>line. JStr (strip line)) ls)))
      | Some p \<Rightarrow>
          (case load_manifest loads fs p of Inl e \<Rightarrow> Inl e
           | Inr manifest \<Rightarrow>
               (case manifest of [] \<Rightarrow> Inl IndexError
                | m0 # _ \<Rightarrow>
                    (case contains m0 ''pred_text'' of Inl e \<Rightarrow> Inl e
                     | Inr b \<Rightarrow>
                         (let text_key = (if b then ''pred_text'' else ''text'') in
                          case item_texts text_key manifest of Inl e \<Rightarrow> Inl e
                          | Inr texts \<Rightarrow> Inr (Some (manifest, text_key), texts))))))"

definition apc_call_of :: "args \<Rightarrow> jval list \<Rightarrow> apc_call" where
  "apc_call_of a texts =
     \<lparr> apc_queries = texts,
       apc_batch_size = batch_size a,
       apc_max_seq_length = max_seq_length a,
       apc_step = step a,
       apc_margin = margin a,
       apc_return_labels = save_labels_instead_of_text a,
       apc_num_workers = 8,
       apc_pin_memory = True,
       apc_add_cls_and_sep_tokens = (\<not> not_add_cls_and_sep_tokens a),
       apc_pickled_features = pickled_features a \<rparr>"

text \<open>
  The body of the loop at lines 248 to 261 for a text that is not empty after the left
  strip: the new value of \<open>processed_texts[i]\<close>.
\<close>

definition intact_sentence :: "args \<Rightarrow> string \<Rightarrow> string" where
  "intact_sentence a text =
     (let text1 =
        (if is_lower (hd text) then
           (if save_labels_instead_of_text a then
              (if hd text = CHR ''O'' then (if no_all_upper_label a then ''U'' else ''u'') @ tl text
               else text)
            else to_upper (hd text) # tl text)
         else text)
      in if last text1 \<notin> set ''.?!'' then right_punct_strip text1 @ ''.'' else text1)"

text \<open>
  The loop at lines 248 to 261, \<open>for i, text in enumerate(processed_texts)\<close>: the list
  iterator reads \<open>processed_texts[i]\<close> as long as \<open>i\<close> is below the current length of
  the list, which the body can change. The first argument bounds the number of iterations;
  \<open>None\<close> is a loop that has not ended within the bound.
\<close>

fun intact_loop :: "nat \<Rightarrow> args \<Rightarrow> nat \<Rightarrow> string list \<Rightarrow> string list option" where
  "intact_loop n a i processed_texts =
     (if length processed_texts \<le> i then Some processed_texts
      else (case n of
              0 \<Rightarrow> None
            | Suc k \<Rightarrow>
                (let text = left_punct_strip (strip (processed_texts ! i)) in
                 if text = [] then intact_loop k a (i + 1) (processed_texts @ [[]])
                 else intact_loop k a (i + 1) (processed_texts [i := intact_sentence a text]))))"

text \<open>The loop at lines 263 and 264.\<close>

fun fix_decimals_loop :: "string list \<Rightarrow> exn + string list" where
  "fix_decimals_loop [] = Inr []"
| "fix_decimals_loop (text # rest) =
     (case decimal_sub (space_dedup text) of Inl e \<Rightarrow> Inl e
      | Inr t \<Rightarrow> (case fix_decimals_loop rest of Inl e \<Rightarrow> Inl e | Inr ts \<Rightarrow> Inr (t # ts)))"

text \<open>Lines 247 to 264: both optional passes over \<open>processed_texts\<close>.\<close>

definition post_process :: "nat \<Rightarrow> args \<Rightarrow> string list \<Rightarrow> (exn + string list) option" where
  "post_process n a processed_texts =
     (case (if make_queries_contain_intact_sentences a then intact_loop n a 0 processed_texts
            else Some processed_texts) of
        None \<Rightarrow> None
      | Some ts \<Rightarrow>
          Some (if fix_decimals a \<and> \<not> save_labels_instead_of_text a then fix_decimals_loop ts
                else Inr ts))"

text \<open>
  Lines 273 to 275: what has been written when the loop over
  \<open>zip(manifest, processed_texts)\<close> ends, and the exception that ended it, if any.
  \<open>dumps\<close> is \<open>json.dumps\<close>.
\<close>

fun write_items :: "(jval \<Rightarrow> string) \<Rightarrow> string \<Rightarrow> jval list \<Rightarrow> string list \<Rightarrow> string \<times> exn option" where
  "write_items dumps text_key (item # items) (t # ts) =
     (case item of
        JObj d \<Rightarrow>
          (let (out, r) = write_items dumps text_key items ts
           in (dumps (JObj (dict_set text_key (JStr t) d)) @ [CHR 0x0A] @ out, r))
      | _ \<Rightarrow> ([], Some TypeError))"
| "write_items dumps text_key items ts = ([], None)"

text \<open>
  Lines 265 to 275. Opening a file for writing creates it empty; the directories made by
  \<open>mkdir\<close> are not part of the model.
\<close>

definition write_outputs ::
  "args \<Rightarrow> (jval \<Rightarrow> string) \<Rightarrow> (jval list \<times> string) option \<Rightarrow> string list \<Rightarrow> files \<Rightarrow>
   exn option \<times> files" where
  "write_outputs a dumps manifest processed_texts fs =
     (case output_manifest a of
        None \<Rightarrow>
          (case output_text a of
             None \<Rightarrow> (Some AttributeError, fs)
           | Some p \<Rightarrow> (None, fs(p \<mapsto> concat (map (\<lambda>t. t @ [CHR 0x0A]) processed_texts))))
      | Some p \<Rightarrow>
          (case manifest of
             None \<Rightarrow> (Some UnboundLocalError, fs(p \<mapsto> []))
           | Some (items, text_key) \<Rightarrow>
               (let (out, r) = write_items dumps text_key items processed_texts
                in (r, fs(p \<mapsto> out)))))"

text \<open>
  \<open>main\<close> from line 225 on, for a loaded model: the exception that ended it, if any, the
  state of the model and the files afterwards. \<open>None\<close> is a run that has not ended within
  \<open>n\<close> iterations of the loop at line 248.
\<close>

definition main ::
  "nat \<Rightarrow> args \<Rightarrow> (string \<Rightarrow> exn + jval) \<Rightarrow> (jval \<Rightarrow> string) \<Rightarrow> 'm model \<Rightarrow> 'm \<Rightarrow> files \<Rightarrow>
   (exn option \<times> 'm \<times> files) option" where
  "main n a loads dumps model ms fs =
     (case read_inputs a loads fs of
        Inl e \<Rightarrow> Some (Some e, ms, fs)
      | Inr (manifest, texts) \<Rightarrow>
          (case model ms (apc_call_of a texts) of
             (Inl e, ms') \<Rightarrow> Some (Some e, ms', fs)
           | (Inr processed_texts, ms') \<Rightarrow>
               (case post_process n a processed_texts of
                  None \<Rightarrow> None
                | Some (Inl e) \<Rightarrow> Some (Some e, ms', fs)
                | Some (Inr ts) \<Rightarrow>
                    (let (r, fs') = write_outputs a dumps manifest ts fs in Some (r, ms', fs')))))"

text \<open>
  The namespace for \<open>--input_text p --output_text q\<close> and for
  \<open>--input_manifest p --output_manifest q\<close> with the defaults of \<open>get_args\<close> for
  every other option.
\<close>

definition text_args :: "string \<Rightarrow> string \<Rightarrow> args" where
  "text_args p q =
     \<lparr> input_manifest = None, input_text = Some p, output_manifest = None, output_text = Some q,
       max_seq_length = 64, step = 8, margin = 16, batch_size = 128,
       save_labels_instead_of_text = False, not_add_cls_and_sep_tokens = False,
       make_queries_contain_intact_sentences = False, no_all_upper_label = False,
       fix_decimals = False, pickled_features = None \<rparr>"

definition manifest_args :: "string \<Rightarrow> string \<Rightarrow> args" where
  "manifest_args p q =
     (text_args p q) \<lparr> input_manifest := Some p, input_text := None,
                        output_manifest := Some q, output_text := None \<rparr>"

section \<open>The segmentation and aggregation core\<close>

text \<open>
  The script calls \<open>PunctuationCapitalizationModel.add_punctuation_capitalization\<close>, whose
  code (the splitting of a query into segments, the margins and the merging of the
  overlapping outputs) is not among the sources. This section follows sections 3, 4 and 7
  of the specification instead.
\<close>

text \<open>Modelled from the spec: the two errors of section 7, the repository's own exceptions being absent.\<close>

datatype core_error = ConfigurationError | CoverageError

text \<open>Modelled from the spec: the Segment of section 3, the repository's class being absent.\<close>

record Segment =
  start_offset :: nat
  seg_length :: nat
  is_first :: bool
  is_last :: bool

text \<open>
  Modelled from the spec: the start offsets of the Segmenter of section 4.1, the
  repository's segmentation code being absent. Offsets go up from \<open>off\<close> in steps of
  \<open>step\<close>; a segment spans \<open>max_length\<close> tokens clipped to the query length \<open>n\<close>; when
  the next stride would overshoot the end of the query, the final segment is right-aligned,
  ending exactly at the last token. A step of zero is rejected before this function is
  reached; here it ends the recursion.
\<close>

function seg_starts :: "nat \<Rightarrow> nat \<Rightarrow> nat \<Rightarrow> nat \<Rightarrow> nat list" where
  "seg_starts n max_length stp off =
     (if n \<le> off + max_length \<or> stp = 0 then [off]
      else if n < off + stp + max_length then [off, n - max_length]
      else off # seg_starts n max_length stp (off + stp))"
  by pat_completeness auto
termination
  by (relation "measure (\<lambda>(n, max_length, stp, off). n - off)") auto

text \<open>
  Modelled from the spec: the Segments for a list of start offsets, in query order, the
  first one marked \<open>is_first\<close> and the last one \<open>is_last\<close>.
\<close>

fun mk_segments :: "nat \<Rightarrow> nat \<Rightarrow> bool \<Rightarrow> nat list \<Rightarrow> Segment list" where
  "mk_segments n max_length first [] = []"
| "mk_segments n max_length first (off # rest) =
     \<lparr> start_offset = off, seg_length = min max_length (n - off),
       is_first = first, is_last = (rest = []) \<rparr>
     # mk_segments n max_length False rest"

text \<open>
  Modelled from the spec: \<open>segment(query, max_length, step)\<close> of section 4.1 with its
  \<open>ConfigurationError\<close>, and the empty query of section 7, which gives a single empty
  Segment. The configuration is checked before any Segment is made.
\<close>

definition segment :: "'a list \<Rightarrow> int \<Rightarrow> int \<Rightarrow> core_error + Segment list" where
  "segment query max_length stp =
     (if max_length < 1 \<or> stp > max_length \<or> stp < 1 then Inl ConfigurationError
      else Inr (mk_segments (length query) (nat max_length) True
                  (seg_starts (length query) (nat max_length) (nat stp) 0)))"

text \<open>
  Modelled from the spec: \<open>mask(segment, margin)\<close> of section 4.2. The left margin is 0
  for the first segment and the right margin 0 for the last one, otherwise the configured
  margin. The spec asks for the two to be clipped so that their sum stays below the
  length of the segment without saying how; here the left margin is cut to at most half
  of what can be discarded and the right margin to what then remains.
\<close>

definition mask :: "Segment \<Rightarrow> nat \<Rightarrow> nat \<times> nat" where
  "mask s mrg =
     (let l0 = (if is_first s then 0 else mrg);
          r0 = (if is_last s then 0 else mrg)
      in if l0 + r0 < seg_length s then (l0, r0)
         else (let l = min l0 ((seg_length s - 1) div 2)
               in (l, min r0 (seg_length s - 1 - l))))"

text \<open>
  Modelled from the spec: token index \<open>i\<close> of the query is covered by segment \<open>s\<close> at a
  position that the margins of \<open>s\<close> do not mask (sections 3 and 4.3).
\<close>

definition unmasked :: "nat \<Rightarrow> Segment \<Rightarrow> nat \<Rightarrow> bool" where
  "unmasked mrg s i =
     (case mask s mrg of
        (l, r) \<Rightarrow> start_offset s + l \<le> i \<and> i + r < start_offset s + seg_length s)"

text \<open>
  Modelled from the spec: the Aggregator of section 4.3. A probability vector is a list
  of reals. The vectors collected for index \<open>i\<close> come from every segment that covers
  \<open>i\<close> unmasked and has an output at that position; they are multiplied elementwise and
  normalised, and the label is the smallest index of a largest entry. An index without
  any vector is a \<open>CoverageError\<close>.
\<close>

definition contributions :: "nat \<Rightarrow> (Segment \<times> real list list) list \<Rightarrow> nat \<Rightarrow> real list list" where
  "contributions mrg segments_with_outputs i =
     map (\<lambda>(s, out). out ! (i - start_offset s))
       (filter (\<lambda>(s, out). unmasked mrg s i \<and> i - start_offset s < length out)
          segments_with_outputs)"

text \<open>Modelled from the spec: the elementwise product of two vectors (section 4.3).\<close>

definition vec_mult :: "real list \<Rightarrow> real list \<Rightarrow> real list" where
  "vec_mult u v = map (\<lambda>(x, y). x * y) (zip u v)"

text \<open>Modelled from the spec: the re-normalisation of a combined vector (section 4.3).\<close>

definition normalise :: "real list \<Rightarrow> real list" where
  "normalise v = map (\<lambda>x. x / sum_list v) v"

text \<open>Modelled from the spec: the search for the first largest entry from position \<open>k\<close> on, \<open>best\<close> holding
  the best position so far and \<open>bv\<close> its value (section 4.3, ties to the smallest index).\<close>

fun argmax_from :: "nat \<Rightarrow> real \<Rightarrow> nat \<Rightarrow> real list \<Rightarrow> nat" where
  "argmax_from best bv k [] = best"
| "argmax_from best bv k (x # xs) =
     (if bv < x then argmax_from k x (k + 1) xs else argmax_from best bv (k + 1) xs)"

text \<open>Modelled from the spec: \<open>argmax\<close> over a vector, ties broken by the smallest label index.\<close>

definition argmax :: "real list \<Rightarrow> nat" where
  "argmax v = (case v of [] \<Rightarrow> 0 | x # xs \<Rightarrow> argmax_from 0 x 1 xs)"

text \<open>Modelled from the spec: the label of one token index, or \<open>CoverageError\<close> without a
  contributing vector (section 4.3).\<close>

definition label_at :: "nat \<Rightarrow> (Segment \<times> real list list) list \<Rightarrow> nat \<Rightarrow> core_error + nat" where
  "label_at mrg segments_with_outputs i =
     (case contributions mrg segments_with_outputs i of
        [] \<Rightarrow> Inl CoverageError
      | v # vs \<Rightarrow> Inr (argmax (normalise (fold vec_mult vs v))))"

text \<open>Modelled from the spec: the labels of a list of token indices, stopping at the first error.\<close>

fun labels_from :: "nat \<Rightarrow> (Segment \<times> real list list) list \<Rightarrow> nat list \<Rightarrow> core_error + nat list" where
  "labels_from mrg segments_with_outputs [] = Inr []"
| "labels_from mrg segments_with_outputs (i # is) =
     (case label_at mrg segments_with_outputs i of
        Inl e \<Rightarrow> Inl e
      | Inr l \<Rightarrow> (case labels_from mrg segments_with_outputs is of
                    Inl e \<Rightarrow> Inl e | Inr ls \<Rightarrow> Inr (l # ls)))"

text \<open>Modelled from the spec: \<open>aggregate(query_length, segments_with_outputs, margins)\<close> of section 4.3,
  the margins given by the configured margin.\<close>

definition aggregate :: "nat \<Rightarrow> (Segment \<times> real list list) list \<Rightarrow> nat \<Rightarrow> core_error + nat list" where
  "aggregate query_length segments_with_outputs mrg =
     labels_from mrg segments_with_outputs [0 ..< query_length]"

section \<open>Facts about the string functions\<close>

lemma split_on_not_Nil: "split_on c s \<noteq> []"
  by (induction s) (auto simp: Let_def)

lemma join_split_on: "join [c] (split_on c s) = s"
proof (induction s)
  case Nil
  show ?case by simp
next
  case (Cons x xs)
  obtain w ws where r: "split_on c xs = w # ws"
    using split_on_not_Nil [of c xs] by (cases "split_on c xs") auto
  with Cons show ?case by (cases ws) (auto simp: Let_def)
qed

lemma split_on_no_sep: "w \<in> set (split_on c s) \<Longrightarrow> c \<notin> set w"
proof (induction s arbitrary: w)
  case Nil
  then show ?case by simp
next
  case (Cons x xs)
  obtain v vs where r: "split_on c xs = v # vs"
    using split_on_not_Nil [of c xs] by (cases "split_on c xs") auto
  from Cons.IH [unfolded r] have iv: "c \<notin> set v" and ivs: "\<And>u. u \<in> set vs \<Longrightarrow> c \<notin> set u"
    by auto
  from Cons.prems r iv ivs show ?case by (auto simp: Let_def split: if_splits)
qed

lemma rstrip_last: "rstrip s \<noteq> [] \<Longrightarrow> \<not> is_space (last (rstrip s))"
proof -
  assume ne: "rstrip s \<noteq> []"
  then have d: "dropWhile is_space (rev s) \<noteq> []" by (simp add: rstrip_def)
  then have "\<not> is_space (hd (dropWhile is_space (rev s)))" by (rule hd_dropWhile)
  with d show ?thesis by (simp add: rstrip_def last_rev)
qed

lemma strip_last: "strip s \<noteq> [] \<Longrightarrow> \<not> is_space (last (strip s))"
  unfolding strip_def by (rule rstrip_last)


section \<open>eval_pypinyin.py: the last character of a stripped line is lost\<close>

lemma split_on_word: "c \<notin> set w \<Longrightarrow> split_on c w = [w]"
  by (induction w) (auto simp: Let_def)

lemma split_on_append:
  "c \<notin> set w \<Longrightarrow> split_on c (w @ c # rest) = w # split_on c rest"
  by (induction w) (auto simp: Let_def)

lemma split_on_three:
  assumes "c \<notin> set f" and "c \<notin> set l" and "c \<notin> set g"
  shows "split_on c (f @ [c] @ l @ [c] @ g) = [f, l, g]"
proof -
  have "split_on c (f @ c # (l @ c # g)) = f # split_on c (l @ c # g)"
    using assms(1) by (rule split_on_append)
  also have "split_on c (l @ c # g) = l # split_on c g" using assms(2) by (rule split_on_append)
  also have "split_on c g = [g]" using assms(3) by (rule split_on_word)
  finally show ?thesis by simp
qed

lemma strip_hd_not_space: "strip s \<noteq> [] \<Longrightarrow> \<not> is_space (hd (strip s))"
proof -
  assume ne: "strip s \<noteq> []"
  then have "lstrip s \<noteq> []" by (auto simp: strip_def rstrip_def)
  then have a: "\<not> is_space (hd (lstrip s))"
    unfolding lstrip_def by (rule hd_dropWhile)
  have "hd (strip s) = hd (lstrip s)"
    using ne a unfolding strip_def rstrip_def
    by (cases "lstrip s") (auto simp: hd_append dropWhile_append3 hd_rev last_rev
         dropWhile_eq_Nil_conv split: if_splits)
  with a show ?thesis by simp
qed

text \<open>
  C9. A line whose stripped form is not empty and does not start with \<open>#\<close> is never
  skipped, and the only exception it can raise is the \<open>ValueError\<close> of the unpacking.
  It is parsed into the fields \<open>filename\<close>, \<open>label\<close>, \<open>character\<close> exactly when the
  stripped line is these three, free of bars and joined by bars, followed by one more
  character; that last character of the stripped line is not whitespace and never reaches
  a field.
\<close>

theorem split_fields_drops_last_char:
  assumes "strip line \<noteq> []" and "hd (strip line) \<noteq> CHR ''#''"
  shows "split_fields line \<noteq> Inr None \<and>
         (\<forall>e. split_fields line = Inl e \<longrightarrow> e = ValueError) \<and>
         \<not> is_space (last (strip line)) \<and>
         (\<forall>filename label character.
            (split_fields line = Inr (Some (filename, label, character))) =
              (strip line = filename @ ''|'' @ label @ ''|'' @ character @ [last (strip line)]
               \<and> CHR ''|'' \<notin> set filename \<union> set label \<union> set character))"
proof -
  let ?s = "strip line"
  let ?bar = "CHR ''|''"
  have nl: "hd ?s \<noteq> CHR 0x0A"
  proof
    assume h: "hd ?s = CHR 0x0A"
    have "\<not> is_space (hd ?s)" using assms(1) by (rule strip_hd_not_space)
    with h show False by (simp add: is_space_def)
  qed
  have sf: "split_fields line =
      (case split_on ?bar (butlast ?s) of
         [filename, label, character] \<Rightarrow> Inr (Some (filename, label, character))
       | _ \<Rightarrow> Inl ValueError)"
    using assms nl by (simp add: split_fields_def Let_def)
  have skip: "split_fields line \<noteq> Inr None"
    unfolding sf by (simp split: list.splits)
  have err: "\<forall>e. split_fields line = Inl e \<longrightarrow> e = ValueError"
    unfolding sf by (simp split: list.splits)
  have sp: "\<not> is_space (last ?s)" using assms(1) by (rule strip_last)
  have bl: "?s = butlast ?s @ [last ?s]" using assms(1) by simp
  have fields: "(split_fields line = Inr (Some (f, l, c))) =
        (?s = f @ ''|'' @ l @ ''|'' @ c @ [last ?s] \<and> ?bar \<notin> set f \<union> set l \<union> set c)"
    for f l c
  proof
    assume h: "split_fields line = Inr (Some (f, l, c))"
    then have sp3: "split_on ?bar (butlast ?s) = [f, l, c]"
      unfolding sf by (simp split: list.splits)
    have "join ''|'' (split_on ?bar (butlast ?s)) = butlast ?s" by (rule join_split_on)
    with sp3 have b: "butlast ?s = f @ ''|'' @ l @ ''|'' @ c" by simp
    with bl have 1: "?s = f @ ''|'' @ l @ ''|'' @ c @ [last ?s]" by simp
    have "\<And>w. w \<in> set [f, l, c] \<Longrightarrow> ?bar \<notin> set w"
      using split_on_no_sep [of _ ?bar "butlast ?s"] sp3 by simp
    then have 3: "?bar \<notin> set f \<union> set l \<union> set c" by auto
    from 1 3 show "?s = f @ ''|'' @ l @ ''|'' @ c @ [last ?s] \<and> ?bar \<notin> set f \<union> set l \<union> set c"
      by (rule conjI)
  next
    assume r: "?s = f @ ''|'' @ l @ ''|'' @ c @ [last ?s] \<and> ?bar \<notin> set f \<union> set l \<union> set c"
    then have "?s = (f @ [?bar] @ l @ [?bar] @ c) @ [last ?s]" by simp
    then have "butlast ?s = butlast ((f @ [?bar] @ l @ [?bar] @ c) @ [last ?s])" by simp
    then have b: "butlast ?s = f @ [?bar] @ l @ [?bar] @ c" by (simp only: butlast_snoc)
    from r have "?bar \<notin> set f" "?bar \<notin> set l" "?bar \<notin> set c" by simp_all
    then have "split_on ?bar (f @ [?bar] @ l @ [?bar] @ c) = [f, l, c]" by (rule split_on_three)
    then have "split_on ?bar (butlast ?s) = [f, l, c]" unfolding b .
    then show "split_fields line = Inr (Some (f, l, c))" unfolding sf by simp
  qed
  from fields have all: "\<forall>filename label character.
            (split_fields line = Inr (Some (filename, label, character))) =
              (?s = filename @ ''|'' @ label @ ''|'' @ character @ [last ?s]
               \<and> ?bar \<notin> set filename \<union> set label \<union> set character)"
    by (intro allI)
  show ?thesis by (intro conjI skip err sp all)
qed

theorem split_fields_drops_last_char_witness:
  "strip ''a.wav|ni3 hao3|XY '' \<noteq> [] \<and> hd (strip ''a.wav|ni3 hao3|XY '') \<noteq> CHR ''#''
   \<and> split_fields ''a.wav|ni3 hao3|XY '' = Inr (Some (''a.wav'', ''ni3 hao3'', ''X''))
   \<and> strip ''a.wav|ni3 hao3|XY '' = ''a.wav|ni3 hao3|X'' @ [last (strip ''a.wav|ni3 hao3|XY '')]"
proof -
  have s: "strip ''a.wav|ni3 hao3|XY '' = ''a.wav|ni3 hao3|XY''"
    by (simp add: strip_def lstrip_def rstrip_def is_space_def)
  have f: "split_fields ''a.wav|ni3 hao3|XY '' = Inr (Some (''a.wav'', ''ni3 hao3'', ''X''))"
    by (simp add: split_fields_def s Let_def)
  have a: "strip ''a.wav|ni3 hao3|XY '' \<noteq> []" and b: "hd (strip ''a.wav|ni3 hao3|XY '') \<noteq> CHR ''#''"
    by (simp_all add: s)
  from split_fields_drops_last_char [OF a b] f s show ?thesis by simp
qed

section \<open>char2pinyin.py: what an emitted entry keeps\<close>











section \<open>Facts about the regular expressions\<close>

lemma punct_not_digit: "is_punct c \<Longrightarrow> \<not> is_digit c"
  by (auto simp: is_punct_def is_digit_def)

lemma digit_not_punct: "is_digit c \<Longrightarrow> \<not> is_punct c"
  by (auto simp: is_punct_def is_digit_def)

lemma digit_not_space: "is_digit c \<Longrightarrow> \<not> is_space c"
  by (auto simp: is_digit_def is_space_def Let_def)

lemma space_char_facts:
  "\<not> is_punct CHR '' ''" "\<not> is_digit CHR '' ''" "is_space CHR '' ''"
  by (simp_all add: is_punct_def is_digit_def is_space_def)

lemma match_opt_punct_shape:
  "match_opt_punct s = (p, r) \<Longrightarrow> s = p @ r \<and> remove_punct p = [] \<and> filter is_digit p = []"
  by (cases s) (auto simp: remove_punct_def punct_not_digit split: if_splits)

lemma match_groups_shape:
  "match_groups s = (g, r) \<Longrightarrow>
     s = g @ r \<and> remove_punct g = concat (map (\<lambda>d. [CHR '' '', d]) (filter is_digit g))"
proof (induction s arbitrary: g r rule: match_groups.induct)
  case (1 a b c s)
  show ?case
  proof (cases "is_punct a \<and> b = CHR '' '' \<and> is_digit c")
    case True
    obtain m r' where mr: "match_groups s = (m, r')" by (cases "match_groups s")
    from "1.IH"(1) [OF True mr]
    have ih: "s = m @ r'" "remove_punct m = concat (map (\<lambda>d. [CHR '' '', d]) (filter is_digit m))"
      by simp_all
    from "1.prems" True mr have g: "g = a # b # c # m" and r: "r = r'" by auto
    from True have "\<not> is_digit a" "\<not> is_punct c" "\<not> is_digit b" "\<not> is_punct b"
      by (auto simp: space_char_facts dest: punct_not_digit digit_not_punct)
    with True ih g r show ?thesis by (simp add: remove_punct_def)
  next
    case False
    show ?thesis
    proof (cases "a = CHR '' '' \<and> is_digit b")
      case True
      obtain m r' where mr: "match_groups (c # s) = (m, r')" by (cases "match_groups (c # s)")
      from "1.IH"(2) [OF False True mr]
      have ih: "c # s = m @ r'"
        "remove_punct m = concat (map (\<lambda>d. [CHR '' '', d]) (filter is_digit m))"
        by simp_all
      from "1.prems" False True mr have g: "g = a # b # m" and r: "r = r'" by auto
      from True have "\<not> is_digit a" "\<not> is_punct a" "\<not> is_punct b"
        by (auto simp: space_char_facts dest: digit_not_punct)
      with True ih g r show ?thesis by (simp add: remove_punct_def)
    next
      case F2: False
      with False "1.prems" show ?thesis by (auto simp: remove_punct_def)
    qed
  qed
next
  case (2 a b)
  then show ?case
    by (auto simp: remove_punct_def space_char_facts split: if_splits dest: digit_not_punct)
qed (simp_all add: remove_punct_def)

lemma of_char_eq_32: "(of_char c :: nat) = 32 \<Longrightarrow> c = CHR '' ''"
proof -
  assume "(of_char c :: nat) = 32"
  then have "(of_char c :: nat) = of_char CHR '' ''" by simp
  then show ?thesis by (simp only: of_char_eq_iff)
qed

lemma of_char_to_lower:
  "of_char (to_lower c) = (if 65 \<le> (of_char c :: nat) \<and> (of_char c :: nat) \<le> 90
                            then of_char c + 32 else (of_char c :: nat))"
  by (simp add: to_lower_def Let_def)

lemma to_lower_space: "to_lower c0 = CHR '' '' \<Longrightarrow> c0 = CHR '' ''"
proof -
  assume "to_lower c0 = CHR '' ''"
  then have "(of_char (to_lower c0) :: nat) = 32" by simp
  then have "(of_char c0 :: nat) = 32"
    unfolding of_char_to_lower by (simp split: if_splits)
  then show ?thesis by (rule of_char_eq_32)
qed

lemma to_lower_point_chars:
  assumes "to_lower c \<in> set ''point''"
  shows "\<not> is_punct c \<and> \<not> is_digit c \<and> \<not> is_space c"
proof -
  have n: "of_char (to_lower c) = (if 65 \<le> (of_char c :: nat) \<and> (of_char c :: nat) \<le> 90
                                    then of_char c + 32 else (of_char c :: nat))"
    by (simp add: to_lower_def Let_def)
  from assms have "(of_char (to_lower c) :: nat) \<in> of_char ` set ''point''" by (rule imageI)
  then have "(of_char (to_lower c) :: nat) \<in> {112, 111, 105, 110, 116}" by simp
  with n have k: "(of_char c :: nat) \<in> {112, 111, 105, 110, 116, 80, 79, 73, 78, 84}"
    by (auto split: if_splits)
  have "(of_char c :: nat) \<noteq> 46 \<and> (of_char c :: nat) \<noteq> 44 \<and> (of_char c :: nat) \<noteq> 63"
    using k by auto
  then have "\<not> is_punct c" by (auto simp: is_punct_def)
  moreover from k have "\<not> is_digit c" "\<not> is_space c"
    by (auto simp: is_digit_def is_space_def Let_def)
  ultimately show ?thesis by simp
qed

lemma match_point_shape:
  assumes "match_point s = Some (pt, r)"
  shows "\<exists>w. s = pt @ r \<and> pt = CHR '' '' # w \<and> map to_lower w = ''point'' \<and>
             (\<forall>c \<in> set w. \<not> is_punct c \<and> \<not> is_digit c \<and> \<not> is_space c)"
proof -
  from assms obtain c0 c1 c2 c3 c4 c5 where s: "s = c0 # c1 # c2 # c3 # c4 # c5 # r"
    and pt: "pt = [c0, c1, c2, c3, c4, c5]"
    and c0: "to_lower c0 = CHR '' ''" and w: "map to_lower [c1, c2, c3, c4, c5] = ''point''"
    by (cases s rule: match_point.cases) (simp_all split: if_splits)
  let ?w = "[c1, c2, c3, c4, c5]"
  have sp: "c0 = CHR '' ''" using c0 by (rule to_lower_space)
  have ws: "\<not> is_punct c \<and> \<not> is_digit c \<and> \<not> is_space c" if "c \<in> set ?w" for c
  proof -
    from that have "to_lower c \<in> set (map to_lower ?w)" unfolding set_map by (rule imageI)
    then have "to_lower c \<in> set ''point''" unfolding w .
    then show ?thesis by (rule to_lower_point_chars)
  qed
  have 1: "s = pt @ r" unfolding pt s by simp
  have 2: "pt = CHR '' '' # ?w" unfolding pt sp by simp
  have 3: "\<forall>c \<in> set ?w. \<not> is_punct c \<and> \<not> is_digit c \<and> \<not> is_space c"
    using ws by (rule ballI)
  show ?thesis
    by (rule exI [of _ ?w]) (intro conjI 1 2 w 3)
qed

lemma split_ws_acc_word:
  "\<forall>c \<in> set u. \<not> is_space c \<Longrightarrow> split_ws_acc w (u @ s) = split_ws_acc (w @ u) s"
  by (induction u arbitrary: w) auto

lemma split_ws_acc_digits:
  "w \<noteq> [] \<Longrightarrow> \<forall>d \<in> set ds. is_digit d \<Longrightarrow>
   split_ws_acc w (concat (map (\<lambda>d. [CHR '' '', d]) ds)) = w # map (\<lambda>d. [d]) ds"
  by (induction ds arbitrary: w) (auto simp: space_char_facts digit_not_space)

lemma match_decimal_SomeD:
  assumes "match_decimal s = Some (m, r)"
  shows "\<exists>p r2 pt r3 g. takeWhile is_digit s \<noteq> [] \<and>
           match_opt_punct (dropWhile is_digit s) = (p, r2) \<and>
           match_point r2 = Some (pt, r3) \<and> match_groups r3 = (g, r) \<and> g \<noteq> [] \<and>
           m = takeWhile is_digit s @ p @ pt @ g"
proof -
  obtain p r2 where op: "match_opt_punct (dropWhile is_digit s) = (p, r2)"
    by (cases "match_opt_punct (dropWhile is_digit s)")
  have ds: "takeWhile is_digit s \<noteq> []"
  proof
    assume "takeWhile is_digit s = []"
    then have "match_decimal s = None" by (simp only: match_decimal_def Let_def simp_thms if_True)
    with assms show False by simp
  qed
  have e1: "match_decimal s = (case match_point r2 of None \<Rightarrow> None
      | Some (pt, r3) \<Rightarrow> (case match_groups r3 of (g, r4) \<Rightarrow>
           if g = [] then None else Some (takeWhile is_digit s @ p @ pt @ g, r4)))"
    by (simp only: match_decimal_def Let_def ds [THEN eq_False [THEN iffD2]] if_False op prod.case)
  obtain pt r3 where mp: "match_point r2 = Some (pt, r3)"
    using assms unfolding e1 by (cases "match_point r2") auto
  obtain g r4 where mg: "match_groups r3 = (g, r4)" by (cases "match_groups r3")
  have e2: "match_decimal s = (if g = [] then None else Some (takeWhile is_digit s @ p @ pt @ g, r4))"
    unfolding e1 by (simp only: mp mg option.case prod.case)
  from assms have g: "g \<noteq> []" unfolding e2 by (cases "g = []") simp_all
  from assms have "Some (takeWhile is_digit s @ p @ pt @ g, r4) = Some (m, r)"
    unfolding e2 by (simp only: g [THEN eq_False [THEN iffD2]] if_False)
  then have m: "m = takeWhile is_digit s @ p @ pt @ g" and r: "r4 = r" by simp_all
  from ds op mp mg g m r show ?thesis by blast
qed

lemma match_groups_has_digit:
  "match_groups s = (g, r) \<Longrightarrow> g \<noteq> [] \<Longrightarrow> filter is_digit g \<noteq> []"
  by (cases s rule: match_groups.cases) (auto split: if_splits prod.splits)

lemma match_decimal_shape:
  assumes "match_decimal s = Some (m, r)"
  shows "\<exists>ds p w g. m = ds @ p @ CHR '' '' # w @ g \<and> s = m @ r \<and>
           ds \<noteq> [] \<and> (\<forall>c \<in> set ds. is_digit c) \<and>
           remove_punct p = [] \<and> filter is_digit p = [] \<and>
           map to_lower w = ''point'' \<and>
           (\<forall>c \<in> set w. \<not> is_punct c \<and> \<not> is_digit c \<and> \<not> is_space c) \<and>
           filter is_digit g \<noteq> [] \<and> remove_punct g = concat (map (\<lambda>d. [CHR '' '', d]) (filter is_digit g))"
proof -
  let ?ds = "takeWhile is_digit s"
  from match_decimal_SomeD [OF assms] obtain p r2 pt r3 g where
    ds: "?ds \<noteq> []" and op: "match_opt_punct (dropWhile is_digit s) = (p, r2)" and
    mp: "match_point r2 = Some (pt, r3)" and mg: "match_groups r3 = (g, r)" and
    g: "g \<noteq> []" and m: "m = ?ds @ p @ pt @ g"
    by blast
  from match_opt_punct_shape [OF op]
  have p: "dropWhile is_digit s = p @ r2" "remove_punct p = []" "filter is_digit p = []"
    by blast+
  obtain w where ww: "r2 = pt @ r3 \<and> pt = CHR '' '' # w \<and> map to_lower w = ''point'' \<and>
       (\<forall>c \<in> set w. \<not> is_punct c \<and> \<not> is_digit c \<and> \<not> is_space c)"
    using match_point_shape [OF mp] by (rule exE)
  note w = ww [THEN conjunct1] ww [THEN conjunct2, THEN conjunct1]
    ww [THEN conjunct2, THEN conjunct2, THEN conjunct1]
    ww [THEN conjunct2, THEN conjunct2, THEN conjunct2]
  from match_groups_shape [OF mg]
  have gs: "r3 = g @ r" "remove_punct g = concat (map (\<lambda>d. [CHR '' '', d]) (filter is_digit g))"
    by blast+
  have fg: "filter is_digit g \<noteq> []" using mg g by (rule match_groups_has_digit)
  have "s = ?ds @ dropWhile is_digit s" by simp
  then have "s = ?ds @ p @ pt @ g @ r" unfolding p(1) w(1) gs(1) .
  then have s: "s = m @ r" unfolding m by simp
  have dd: "\<forall>c \<in> set ?ds. is_digit c" by (auto dest: set_takeWhileD)
  have m': "m = ?ds @ p @ CHR '' '' # w @ g" unfolding m w(2) by simp
  show ?thesis
    by (rule exI [of _ ?ds], rule exI [of _ p], rule exI [of _ w], rule exI [of _ g])
       (intro conjI m' s ds dd p(2) p(3) w(3) w(4) fg gs(2))
qed

section \<open>decimal_repl on a match of DECIMAL\<close>

text \<open>
  C10. On every string that \<open>DECIMAL\<close> matches, the parts that \<open>decimal_repl\<close> splits the
  match into, once the punctuation is removed, are the leading run of digits, the word
  \<open>point\<close> in some capitalisation and one part per digit that follows; the result is the
  run of digits, a dot and the following digits without spaces, so the word is dropped.
\<close>

theorem decimal_repl_on_match:
  assumes "match_decimal s = Some (m, r)"
  shows "\<exists>w. split_ws (remove_punct m) =
               takeWhile is_digit m # w # map (\<lambda>d. [d]) (filter is_digit (dropWhile is_digit m)) \<and>
             map to_lower w = ''point'' \<and>
             filter is_digit (dropWhile is_digit m) \<noteq> [] \<and>
             decimal_repl m =
               Inr (takeWhile is_digit m @ ''.'' @ filter is_digit (dropWhile is_digit m))"
proof -
  obtain ds p w g where sh: "m = ds @ p @ CHR '' '' # w @ g \<and> s = m @ r \<and>
           ds \<noteq> [] \<and> (\<forall>c \<in> set ds. is_digit c) \<and>
           remove_punct p = [] \<and> filter is_digit p = [] \<and>
           map to_lower w = ''point'' \<and>
           (\<forall>c \<in> set w. \<not> is_punct c \<and> \<not> is_digit c \<and> \<not> is_space c) \<and>
           filter is_digit g \<noteq> [] \<and> remove_punct g = concat (map (\<lambda>d. [CHR '' '', d]) (filter is_digit g))"
    using match_decimal_shape [OF assms] by (elim exE)
  note m = sh [THEN conjunct1]
  note ds = sh [THEN conjunct2, THEN conjunct2, THEN conjunct1]
  note dd = sh [THEN conjunct2, THEN conjunct2, THEN conjunct2, THEN conjunct1]
  note p1 = sh [THEN conjunct2, THEN conjunct2, THEN conjunct2, THEN conjunct2, THEN conjunct1]
  note p2 = sh [THEN conjunct2, THEN conjunct2, THEN conjunct2, THEN conjunct2, THEN conjunct2, THEN conjunct1]
  note w1 = sh [THEN conjunct2, THEN conjunct2, THEN conjunct2, THEN conjunct2, THEN conjunct2, THEN conjunct2, THEN conjunct1]
  note w2 = sh [THEN conjunct2, THEN conjunct2, THEN conjunct2, THEN conjunct2, THEN conjunct2, THEN conjunct2, THEN conjunct2, THEN conjunct1]
  note fne = sh [THEN conjunct2, THEN conjunct2, THEN conjunct2, THEN conjunct2, THEN conjunct2, THEN conjunct2, THEN conjunct2, THEN conjunct2, THEN conjunct1]
  note g2 = sh [THEN conjunct2, THEN conjunct2, THEN conjunct2, THEN conjunct2, THEN conjunct2, THEN conjunct2, THEN conjunct2, THEN conjunct2, THEN conjunct2]
  let ?fs = "filter is_digit g"
  let ?tail = "p @ CHR '' '' # w @ g"
  have wne: "w \<noteq> []"
  proof
    assume "w = []"
    then have "map to_lower w = []" by simp
    with w1 show False by simp
  qed
  have hd_tail: "\<not> is_digit (hd ?tail)"
  proof (cases p)
    case Nil
    then show ?thesis by (simp add: space_char_facts)
  next
    case (Cons c cs)
    with p2 show ?thesis by (auto split: if_splits)
  qed
  have tw: "takeWhile is_digit m = ds"
  proof -
    obtain t ts where t: "?tail = t # ts" by (cases ?tail) auto
    with hd_tail have nt: "\<not> is_digit t" by simp
    have "takeWhile is_digit (ds @ t # ts) = ds" using dd nt by (simp add: takeWhile_tail)
    then show ?thesis unfolding m t .
  qed
  have dw: "dropWhile is_digit m = ?tail"
  proof -
    obtain t ts where t: "?tail = t # ts" by (cases ?tail) auto
    with hd_tail have nt: "\<not> is_digit t" by simp
    have "dropWhile is_digit (ds @ t # ts) = t # ts" using dd nt by (simp add: dropWhile_append3)
    then show ?thesis unfolding m t .
  qed
  have fw: "filter is_digit w = []" using w2 by (simp add: filter_empty_conv)
  have fd: "filter is_digit (dropWhile is_digit m) = ?fs"
    unfolding dw using p2 fw by (simp add: space_char_facts)
  have rp_ds: "remove_punct ds = ds"
    unfolding remove_punct_def using dd by (auto simp: filter_id_conv dest: digit_not_punct)
  have rp_w: "remove_punct w = w"
    unfolding remove_punct_def using w2 by (simp add: filter_id_conv)
  have rp: "remove_punct m = ds @ CHR '' '' # w @ concat (map (\<lambda>d. [CHR '' '', d]) ?fs)"
  proof -
    have "remove_punct m = remove_punct ds @ remove_punct p @ remove_punct [CHR '' '']
            @ remove_punct w @ remove_punct g"
      unfolding m remove_punct_def by simp
    also have "\<dots> = ds @ [] @ [CHR '' ''] @ w @ concat (map (\<lambda>d. [CHR '' '', d]) ?fs)"
      unfolding rp_ds p1 rp_w g2 by (simp add: remove_punct_def space_char_facts)
    finally show ?thesis by simp
  qed
  have ns_ds: "\<forall>c \<in> set ds. \<not> is_space c" using dd by (auto dest: digit_not_space)
  have ns_w: "\<forall>c \<in> set w. \<not> is_space c" using w2 by simp
  have fsd: "\<forall>d \<in> set ?fs. is_digit d" by simp
  have sp: "split_ws (remove_punct m) = ds # w # map (\<lambda>d. [d]) ?fs"
  proof -
    have "split_ws (remove_punct m)
          = split_ws_acc ds (CHR '' '' # w @ concat (map (\<lambda>d. [CHR '' '', d]) ?fs))"
      unfolding split_ws_def rp using split_ws_acc_word [OF ns_ds, of "[]"] by simp
    also have "\<dots> = ds # split_ws_acc [] (w @ concat (map (\<lambda>d. [CHR '' '', d]) ?fs))"
      using ds by (simp add: space_char_facts)
    also have "\<dots> = ds # split_ws_acc w (concat (map (\<lambda>d. [CHR '' '', d]) ?fs))"
      using split_ws_acc_word [OF ns_w, of "[]"] by simp
    also have "\<dots> = ds # w # map (\<lambda>d. [d]) ?fs"
      using split_ws_acc_digits [OF wne fsd] by simp
    finally show ?thesis .
  qed
  have cc: "concat (map (\<lambda>d. [d]) ?fs) = ?fs" by (induction g) auto
  have dr: "decimal_repl m = Inr (ds @ ''.'' @ ?fs)"
    unfolding decimal_repl_def Let_def sp by (simp add: cc)
  have 1: "split_ws (remove_punct m) =
      takeWhile is_digit m # w # map (\<lambda>d. [d]) (filter is_digit (dropWhile is_digit m))"
    unfolding tw fd by (rule sp)
  have 3: "filter is_digit (dropWhile is_digit m) \<noteq> []" unfolding fd by (rule fne)
  have 4: "decimal_repl m = Inr (takeWhile is_digit m @ ''.'' @ filter is_digit (dropWhile is_digit m))"
    unfolding tw fd by (rule dr)
  show ?thesis by (rule exI [of _ w]) (intro conjI 1 w1 3 4)
qed

theorem decimal_repl_on_match_witness:
  "match_decimal ''3, Point. 1 4 apples'' = Some (''3, Point. 1 4'', '' apples'') \<and>
   decimal_repl ''3, Point. 1 4'' = Inr ''3.14''"
proof -
  have h: "match_decimal ''3, Point. 1 4 apples'' = Some (''3, Point. 1 4'', '' apples'')"
    by code_simp
  obtain w where "decimal_repl ''3, Point. 1 4'' =
      Inr (takeWhile is_digit ''3, Point. 1 4'' @ ''.'' @
           filter is_digit (dropWhile is_digit ''3, Point. 1 4''))"
    using decimal_repl_on_match [OF h] by (elim exE conjE)
  then have "decimal_repl ''3, Point. 1 4'' = Inr ''3.14''"
    by (simp add: is_digit_def)
  with h show ?thesis by (rule conjI)
qed

lemma decimal_sub_example:
  "decimal_sub ''pi is 3 point 1 4 ok'' = Inr ''pi is 3.14 ok''"
  by code_simp

section \<open>The loop over processed_texts\<close>

declare intact_loop.simps [simp del]

lemma strip_Nil: "left_punct_strip (strip []) = []"
  by (simp add: left_punct_strip_def strip_def lstrip_def rstrip_def)

lemma first_is_letter:
  "left_punct_strip s \<noteq> [] \<Longrightarrow> is_letter (hd (left_punct_strip s))"
  unfolding left_punct_strip_def using hd_dropWhile [of "\<lambda>c. \<not> is_letter c" s] by simp

lemma intact_loop_done: "length xs \<le> i \<Longrightarrow> intact_loop n a i xs = Some xs"
  by (subst intact_loop.simps) simp

lemma intact_loop_Suc:
  "i < length xs \<Longrightarrow>
   intact_loop (Suc n) a i xs =
     (if left_punct_strip (strip (xs ! i)) = [] then intact_loop n a (i + 1) (xs @ [[]])
      else intact_loop n a (i + 1)
             (xs [i := intact_sentence a (left_punct_strip (strip (xs ! i)))]))"
  by (subst intact_loop.simps) (simp add: Let_def)

lemma intact_loop_0: "i < length xs \<Longrightarrow> intact_loop 0 a i xs = None"
  by (subst intact_loop.simps) simp

lemma intact_loop_stuck:
  "i < length xs \<Longrightarrow>
   (\<forall>j. i \<le> j \<and> j < length xs \<longrightarrow> left_punct_strip (strip (xs ! j)) = []) \<Longrightarrow>
   intact_loop n a i xs = None"
proof (induction n arbitrary: i xs)
  case 0
  then show ?case by (simp add: intact_loop_0)
next
  case (Suc n)
  from Suc.prems have e: "left_punct_strip (strip (xs ! i)) = []" by simp
  have "intact_loop (Suc n) a i xs = intact_loop n a (i + 1) (xs @ [[]])"
    using Suc.prems(1) e by (simp add: intact_loop_Suc)
  also have "\<dots> = None"
  proof (rule Suc.IH)
    show "i + 1 < length (xs @ [[]])" using Suc.prems(1) by simp
    show "\<forall>j. i + 1 \<le> j \<and> j < length (xs @ [[]]) \<longrightarrow>
            left_punct_strip (strip ((xs @ [[]]) ! j)) = []"
      using Suc.prems(2) by (auto simp: nth_append strip_Nil)
  qed
  finally show ?case .
qed

lemma intact_loop_mono:
  "intact_loop n a i xs = Some r \<Longrightarrow> intact_loop (n + k) a i xs = Some r"
proof (induction n arbitrary: i xs)
  case 0
  show ?case
  proof (cases "length xs \<le> i")
    case True
    with 0 show ?thesis by (simp add: intact_loop_done)
  next
    case False
    with 0 show ?thesis by (simp add: intact_loop_0)
  qed
next
  case (Suc n)
  show ?case
  proof (cases "length xs \<le> i")
    case True
    with Suc.prems show ?thesis by (simp add: intact_loop_done)
  next
    case False
    then have lt: "i < length xs" by simp
    show ?thesis
    proof (cases "left_punct_strip (strip (xs ! i)) = []")
      case True
      with Suc.prems lt have "intact_loop n a (i + 1) (xs @ [[]]) = Some r"
        by (simp add: intact_loop_Suc)
      then have "intact_loop (n + k) a (i + 1) (xs @ [[]]) = Some r" by (rule Suc.IH)
      with True lt show ?thesis by (simp add: intact_loop_Suc)
    next
      case F: False
      let ?ys = "xs [i := intact_sentence a (left_punct_strip (strip (xs ! i)))]"
      from Suc.prems lt F have "intact_loop n a (i + 1) ?ys = Some r"
        by (simp add: intact_loop_Suc)
      then have "intact_loop (n + k) a (i + 1) ?ys = Some r" by (rule Suc.IH)
      with F lt show ?thesis by (simp add: intact_loop_Suc)
    qed
  qed
qed

lemma intact_loop_deterministic:
  assumes "intact_loop n a i xs = Some r1" and "intact_loop m a i xs = Some r2"
  shows "r1 = r2"
proof -
  from assms(1) have "intact_loop (n + m) a i xs = Some r1" by (rule intact_loop_mono)
  moreover from assms(2) have "intact_loop (m + n) a i xs = Some r2" by (rule intact_loop_mono)
  ultimately show ?thesis by (simp add: add.commute)
qed

section \<open>main: a text without letters\<close>

lemma no_letters_example: "left_punct_strip (strip ''123.'') = []"
  by (simp add: left_punct_strip_def strip_def lstrip_def rstrip_def is_space_def is_letter_def)

lemma post_process_never_ends:
  "make_queries_contain_intact_sentences a \<Longrightarrow> post_process n a [''123.''] = None"
proof -
  have "intact_loop n a 0 [''123.''] = None"
    by (rule intact_loop_stuck) (simp_all add: no_letters_example)
  then show "make_queries_contain_intact_sentences a \<Longrightarrow> ?thesis"
    by (simp add: post_process_def)
qed

lemma read_inputs_text:
  "input_manifest a = None \<Longrightarrow> input_text a = Some p \<Longrightarrow> fs p = Some t \<Longrightarrow>
   read_inputs a loads fs = Inr (None, map (\<lambda>line. JStr (strip line)) (file_lines t))"
  by (simp add: read_inputs_def open_read_def)

text \<open>
  C1. The claim asks for one output per input, in place. The loop at line 248 does not
  keep to it: for a text without a letter it appends an empty string to \<open>processed_texts\<close>
  instead of assigning to index \<open>i\<close>; the iterator then reaches the appended string,
  which is empty again, and so on. With the input line \<open>123\<close> and a model that returns
  \<open>123.\<close> for it, \<open>main\<close> with \<open>--make_queries_contain_intact_sentences\<close> does not
  end within any number of iterations, and nothing is written.
\<close>

theorem main_never_ends:
  "main n ((text_args ''in.txt'' ''out.txt'')
             \<lparr>make_queries_contain_intact_sentences := True, fix_decimals := False\<rparr>)
     loads dumps (\<lambda>ms call. (Inr [''123.''], ms)) ms [''in.txt'' \<mapsto> ''123'']
   = None"
proof -
  let ?a = "(text_args ''in.txt'' ''out.txt'')
             \<lparr>make_queries_contain_intact_sentences := True, fix_decimals := False\<rparr>"
  have r: "read_inputs ?a loads [''in.txt'' \<mapsto> ''123'']
           = Inr (None, map (\<lambda>line. JStr (strip line)) (file_lines ''123''))"
    by (rule read_inputs_text) (simp_all add: text_args_def)
  have p: "post_process n ?a [''123.''] = None"
    by (rule post_process_never_ends) (simp add: text_args_def)
  show ?thesis unfolding main_def r by (simp add: p)
qed

section \<open>main: determinism\<close>

lemma intact_loop_diverges:
  "i \<le> j \<Longrightarrow> j < length xs \<Longrightarrow> left_punct_strip (strip (xs ! j)) = [] \<Longrightarrow>
   intact_loop n a i xs = None"
proof (induction n arbitrary: i j xs)
  case 0
  then show ?case by (simp add: intact_loop_0)
next
  case (Suc n)
  from Suc.prems have lt: "i < length xs" by simp
  show ?case
  proof (cases "left_punct_strip (strip (xs ! i)) = []")
    case True
    have "intact_loop n a (i + 1) (xs @ [[]]) = None"
    proof (rule Suc.IH [of "i + 1" "length xs"])
      show "i + 1 \<le> length xs" using lt by simp
      show "length xs < length (xs @ [[]])" by simp
      show "left_punct_strip (strip ((xs @ [[]]) ! length xs)) = []" by (simp add: strip_Nil)
    qed
    with True lt show ?thesis by (simp add: intact_loop_Suc)
  next
    case False
    let ?ys = "xs [i := intact_sentence a (left_punct_strip (strip (xs ! i)))]"
    from False Suc.prems have ij: "i \<noteq> j" by auto
    have "intact_loop n a (i + 1) ?ys = None"
    proof (rule Suc.IH [of "i + 1" j])
      show "i + 1 \<le> j" using ij Suc.prems(1) by simp
      show "j < length ?ys" using Suc.prems(2) by simp
      show "left_punct_strip (strip (?ys ! j)) = []" using ij Suc.prems(3) by simp
    qed
    with False lt show ?thesis by (simp add: intact_loop_Suc)
  qed
qed

lemma intact_loop_ends:
  "(\<forall>j. i \<le> j \<and> j < length xs \<longrightarrow> left_punct_strip (strip (xs ! j)) \<noteq> []) \<Longrightarrow>
   length xs - i \<le> n \<Longrightarrow>
   intact_loop n a i xs =
     Some (take i xs @ map (\<lambda>t. intact_sentence a (left_punct_strip (strip t))) (drop i xs))"
proof (induction n arbitrary: i xs)
  case 0
  then have "length xs \<le> i" by simp
  then show ?case by (simp add: intact_loop_done)
next
  case (Suc n)
  let ?F = "\<lambda>t. intact_sentence a (left_punct_strip (strip t))"
  show ?case
  proof (cases "length xs \<le> i")
    case True
    then show ?thesis by (simp add: intact_loop_done)
  next
    case False
    then have lt: "i < length xs" by simp
    let ?ys = "xs [i := ?F (xs ! i)]"
    from Suc.prems(1) lt have ne: "left_punct_strip (strip (xs ! i)) \<noteq> []" by simp
    have "intact_loop n a (i + 1) ?ys = Some (take (i + 1) ?ys @ map ?F (drop (i + 1) ?ys))"
    proof (rule Suc.IH)
      show "\<forall>j. i + 1 \<le> j \<and> j < length ?ys \<longrightarrow> left_punct_strip (strip (?ys ! j)) \<noteq> []"
        using Suc.prems(1) by simp
      show "length ?ys - (i + 1) \<le> n" using Suc.prems(2) by simp
    qed
    moreover have "take (i + 1) ?ys = take i xs @ [?F (xs ! i)]"
      using lt by (simp add: take_Suc_conv_app_nth)
    moreover have "drop (i + 1) ?ys = drop (i + 1) xs" by simp
    moreover have "drop i xs = xs ! i # drop (i + 1) xs"
      using lt by (simp add: Cons_nth_drop_Suc)
    ultimately have "intact_loop n a (i + 1) ?ys = Some (take i xs @ map ?F (drop i xs))"
      by simp
    with ne lt show ?thesis by (simp add: intact_loop_Suc)
  qed
qed

lemma post_process_diverges:
  assumes "make_queries_contain_intact_sentences a"
    and "\<exists>t \<in> set pts. left_punct_strip (strip t) = []"
  shows "post_process n a pts = None"
proof -
  from assms(2) obtain j where "j < length pts" "left_punct_strip (strip (pts ! j)) = []"
    by (auto simp: in_set_conv_nth)
  then have "intact_loop n a 0 pts = None" by (intro intact_loop_diverges [of 0 j]) simp_all
  with assms(1) show ?thesis by (simp add: post_process_def)
qed

lemma post_process_ends:
  assumes "\<not> (make_queries_contain_intact_sentences a \<and>
              (\<exists>t \<in> set pts. left_punct_strip (strip t) = []))"
    and "length pts \<le> n"
  shows "post_process n a pts =
     Some (let ts1 = (if make_queries_contain_intact_sentences a
                      then map (\<lambda>t. intact_sentence a (left_punct_strip (strip t))) pts
                      else pts)
           in if fix_decimals a \<and> \<not> save_labels_instead_of_text a then fix_decimals_loop ts1
              else Inr ts1)"
proof (cases "make_queries_contain_intact_sentences a")
  case True
  with assms(1) have "\<forall>j. 0 \<le> j \<and> j < length pts \<longrightarrow> left_punct_strip (strip (pts ! j)) \<noteq> []"
    by auto
  from intact_loop_ends [OF this, of n a] assms(2)
  have "intact_loop n a 0 pts = Some (map (\<lambda>t. intact_sentence a (left_punct_strip (strip t))) pts)"
    by simp
  with True show ?thesis by (simp add: post_process_def Let_def del: fix_decimals_loop.simps)
next
  case False
  then show ?thesis by (simp add: post_process_def Let_def del: fix_decimals_loop.simps)
qed

text \<open>
  C3. The outcome of \<open>main\<close> is fixed by its arguments, the files, the JSON functions,
  the model function and the model state, and is given here in closed form. If reading the
  inputs or the model call raises, every run ends with that exception and the files
  untouched. If the loop at line 248 runs and some returned text has no letter, no run
  ends. In every other case every run (with a bound not below the number of texts) ends
  with the same model state and the same files: the texts mapped through
  \<open>intact_sentence\<close> when asked for, then through the decimal pass when asked for, then
  written by \<open>write_outputs\<close>.
\<close>

theorem main_deterministic:
  "(case read_inputs a loads fs of
      Inl e \<Rightarrow> \<forall>n. main n a loads dumps model ms fs = Some (Some e, ms, fs)
    | Inr (manifest, texts) \<Rightarrow>
        (case model ms (apc_call_of a texts) of
           (Inl e, ms') \<Rightarrow> \<forall>n. main n a loads dumps model ms fs = Some (Some e, ms', fs)
         | (Inr pts, ms') \<Rightarrow>
             if make_queries_contain_intact_sentences a \<and>
                (\<exists>t \<in> set pts. left_punct_strip (strip t) = [])
             then \<forall>n. main n a loads dumps model ms fs = None
             else \<forall>n \<ge> length pts. main n a loads dumps model ms fs =
                    Some (let ts1 = (if make_queries_contain_intact_sentences a
                                     then map (\<lambda>t. intact_sentence a (left_punct_strip (strip t))) pts
                                     else pts)
                          in case (if fix_decimals a \<and> \<not> save_labels_instead_of_text a
                                   then fix_decimals_loop ts1 else Inr ts1) of
                               Inl e \<Rightarrow> (Some e, ms', fs)
                             | Inr ts \<Rightarrow> (case write_outputs a dumps manifest ts fs of
                                           (r, fs') \<Rightarrow> (r, ms', fs')))))"
proof (cases "read_inputs a loads fs")
  case (Inl e)
  then show ?thesis by (simp add: main_def)
next
  case (Inr mt)
  obtain manifest texts where mt: "mt = (manifest, texts)" by (cases mt)
  note rd = Inr [unfolded mt]
  obtain res ms' where call: "model ms (apc_call_of a texts) = (res, ms')"
    by (cases "model ms (apc_call_of a texts)")
  show ?thesis
  proof (cases res)
    case (Inl e)
    with rd call show ?thesis by (simp add: main_def)
  next
    case (Inr pts)
    note call' = call [unfolded Inr]
    show ?thesis
    proof (cases "make_queries_contain_intact_sentences a \<and>
                  (\<exists>t \<in> set pts. left_punct_strip (strip t) = [])")
      case True
      then have "post_process n a pts = None" for n
        by (intro post_process_diverges) simp_all
      then have "main n a loads dumps model ms fs = None" for n
        by (simp add: main_def rd call')
      then have key: "\<forall>n. main n a loads dumps model ms fs = None" by (rule allI)
      show ?thesis using key by (simp only: rd call' sum.case prod.case True if_True simp_thms)
    next
      case False
      let ?ts1 = "if make_queries_contain_intact_sentences a
                  then map (\<lambda>t. intact_sentence a (left_punct_strip (strip t))) pts else pts"
      let ?pp = "if fix_decimals a \<and> \<not> save_labels_instead_of_text a
                 then fix_decimals_loop ?ts1 else Inr ?ts1"
      have pp: "post_process n a pts = Some ?pp" if "length pts \<le> n" for n
        using post_process_ends [OF False that] by (simp only: Let_def)
      have m1: "main n a loads dumps model ms fs =
              (case post_process n a pts of
                 None \<Rightarrow> None
               | Some (Inl e) \<Rightarrow> Some (Some e, ms', fs)
               | Some (Inr ts) \<Rightarrow>
                   (let (r, fs') = write_outputs a dumps manifest ts fs in Some (r, ms', fs')))"
        for n by (simp add: main_def rd call')
      have "main n a loads dumps model ms fs =
              Some (case ?pp of Inl e \<Rightarrow> (Some e, ms', fs)
                    | Inr ts \<Rightarrow> (case write_outputs a dumps manifest ts fs of
                                    (r, fs') \<Rightarrow> (r, ms', fs')))"
        if "length pts \<le> n" for n
        unfolding m1 pp [OF that]
        by (cases ?pp) (simp_all add: Let_def split: prod.splits)
      then have key: "\<forall>n \<ge> length pts. main n a loads dumps model ms fs =
                    Some (let ts1 = (if make_queries_contain_intact_sentences a
                                     then map (\<lambda>t. intact_sentence a (left_punct_strip (strip t))) pts
                                     else pts)
                          in case (if fix_decimals a \<and> \<not> save_labels_instead_of_text a
                                   then fix_decimals_loop ts1 else Inr ts1) of
                               Inl e \<Rightarrow> (Some e, ms', fs)
                             | Inr ts \<Rightarrow> (case write_outputs a dumps manifest ts fs of
                                           (r, fs') \<Rightarrow> (r, ms', fs')))"
        by (simp only: Let_def) blast
      show ?thesis using key by (simp only: rd call' sum.case prod.case False if_False simp_thms)
    qed
  qed
qed

theorem main_deterministic_witness:
  "main 1 ((text_args ''in.txt'' ''out.txt'')
       \<lparr>make_queries_contain_intact_sentences := True, fix_decimals := True\<rparr>)
     (\<lambda>s. Inl JSONDecodeError) (\<lambda>v. [])
     (\<lambda>k call. (Inr [''hello world, pi is 3 point 1 4 ok''], Suc k)) (0::nat)
     [''in.txt'' \<mapsto> ''hello\<newline>'']
   = main 7 ((text_args ''in.txt'' ''out.txt'')
       \<lparr>make_queries_contain_intact_sentences := True, fix_decimals := True\<rparr>)
     (\<lambda>s. Inl JSONDecodeError) (\<lambda>v. [])
     (\<lambda>k call. (Inr [''hello world, pi is 3 point 1 4 ok''], Suc k)) (0::nat)
     [''in.txt'' \<mapsto> ''hello\<newline>'']
   \<and> main 1 ((text_args ''in.txt'' ''out.txt'')
       \<lparr>make_queries_contain_intact_sentences := True, fix_decimals := True\<rparr>)
     (\<lambda>s. Inl JSONDecodeError) (\<lambda>v. [])
     (\<lambda>k call. (Inr [''hello world, pi is 3 point 1 4 ok''], Suc k)) (0::nat)
     [''in.txt'' \<mapsto> ''hello\<newline>''] \<noteq> None
   \<and> main 3 ((text_args ''in.txt'' ''out.txt'')
       \<lparr>make_queries_contain_intact_sentences := True, fix_decimals := True\<rparr>)
     (\<lambda>s. Inl JSONDecodeError) (\<lambda>v. [])
     (\<lambda>k call. (Inr [''123.''], Suc k)) (0::nat)
     [''in.txt'' \<mapsto> ''hello\<newline>''] = None"
proof -
  let ?a = "(text_args ''in.txt'' ''out.txt'')
       \<lparr>make_queries_contain_intact_sentences := True, fix_decimals := True\<rparr>"
  let ?L = "\<lambda>s :: string. (Inl JSONDecodeError :: exn + jval)"
  let ?D = "\<lambda>v :: jval. ([] :: string)"
  let ?fs = "[''in.txt'' \<mapsto> ''hello\<newline>'']"
  let ?P = "''hello world, pi is 3 point 1 4 ok''"
  let ?m = "\<lambda>n. main n ?a ?L ?D (\<lambda>k call. (Inr [?P], Suc k)) (0::nat) ?fs"
  let ?m2 = "\<lambda>n. main n ?a ?L ?D (\<lambda>k call. (Inr [''123.''], Suc k)) (0::nat) ?fs"
  have rd: "read_inputs ?a ?L ?fs
    = Inr (None, map (\<lambda>line. JStr (strip line)) (file_lines ''hello\<newline>''))"
    by (rule read_inputs_text) (simp_all add: text_args_def)
  have l: "left_punct_strip (strip ?P) = ?P" by code_simp
  have mq: "make_queries_contain_intact_sentences ?a = True" by simp
  have c1: "(\<exists>t \<in> set [?P]. left_punct_strip (strip t) = []) = False" by (simp add: l)
  have c2: "(\<exists>t \<in> set [''123.'']. left_punct_strip (strip t) = []) = True"
    by (simp add: no_letters_example)
  from main_deterministic [where a = ?a and loads = ?L and fs = ?fs and dumps = ?D
      and model = "\<lambda>k call. (Inr [?P], Suc k)" and ms = "0::nat"]
  have "\<forall>n \<ge> length [?P]. ?m n =
          Some (let ts1 = (if make_queries_contain_intact_sentences ?a
                           then map (\<lambda>t. intact_sentence ?a (left_punct_strip (strip t))) [?P]
                           else [?P])
                in case (if fix_decimals ?a \<and> \<not> save_labels_instead_of_text ?a
                         then fix_decimals_loop ts1 else Inr ts1) of
                     Inl e \<Rightarrow> (Some e, Suc 0, ?fs)
                   | Inr ts \<Rightarrow> (case write_outputs ?a ?D None ts ?fs of
                                 (r, fs') \<Rightarrow> (r, Suc 0, fs')))"
    by (simp only: rd sum.case prod.case mq c1 if_False simp_thms)
  then obtain r where r: "\<forall>n \<ge> length [?P]. ?m n = Some r" by (rule that)
  from r have r1: "?m 1 = Some r" by simp
  from r have r7: "?m 7 = Some r" by simp
  from main_deterministic [where a = ?a and loads = ?L and fs = ?fs and dumps = ?D
      and model = "\<lambda>k call. (Inr [''123.''], Suc k)" and ms = "0::nat"]
  have "\<forall>n. ?m2 n = None"
    by (simp only: rd sum.case prod.case mq c2 if_True simp_thms)
  then have d: "?m2 3 = None" by (rule spec)
  from r1 r7 d show ?thesis by simp
qed

section \<open>main: a failing model call\<close>


lemma strip_hello: "strip ''hello\<newline>'' = ''hello''"
  by (simp add: strip_def lstrip_def rstrip_def is_space_def)

lemma read_hello:
  "read_inputs (text_args ''in.txt'' ''out.txt'') (\<lambda>s. Inl JSONDecodeError)
      [''in.txt'' \<mapsto> ''hello\<newline>'']
   = Inr (None, [JStr ''hello''])"
proof -
  have "read_inputs (text_args ''in.txt'' ''out.txt'') (\<lambda>s. Inl JSONDecodeError)
      [''in.txt'' \<mapsto> ''hello\<newline>'']
    = Inr (None, map (\<lambda>line. JStr (strip line)) (file_lines ''hello\<newline>''))"
    by (rule read_inputs_text) (simp_all add: text_args_def)
  also have "file_lines ''hello\<newline>'' = [''hello\<newline>'']" by simp
  finally show ?thesis by (simp only: strip_hello list.map)
qed




text \<open>
  C5. When the call of \<open>add_punctuation_capitalization\<close> raises an exception,
  \<open>main\<close> ends with that same exception, and the state of the model is the one left
  by that single call: the call is not made again and the exception is not replaced.
\<close>

theorem main_propagates_model_failure:
  assumes "read_inputs a loads fs = Inr (manifest, texts)"
    and "model ms (apc_call_of a texts) = (Inl e, ms')"
  shows "map_option fst (main n a loads dumps model ms fs) = Some (Some e) \<and>
         map_option (fst \<circ> snd) (main n a loads dumps model ms fs) = Some ms'"
  using assms by (simp add: main_def)

theorem main_propagates_model_failure_witness:
  "read_inputs (text_args ''in.txt'' ''out.txt'') (\<lambda>s. Inl JSONDecodeError)
      [''in.txt'' \<mapsto> ''hello\<newline>''] = Inr (None, [JStr ''hello'']) \<and>
   map_option fst (main 0 (text_args ''in.txt'' ''out.txt'') (\<lambda>s. Inl JSONDecodeError) (\<lambda>v. [])
        (\<lambda>k call. (Inl (ModelFailure ''out of memory''), Suc k)) (0::nat)
        [''in.txt'' \<mapsto> ''hello\<newline>'']) = Some (Some (ModelFailure ''out of memory'')) \<and>
   map_option (fst \<circ> snd) (main 0 (text_args ''in.txt'' ''out.txt'') (\<lambda>s. Inl JSONDecodeError) (\<lambda>v. [])
        (\<lambda>k call. (Inl (ModelFailure ''out of memory''), Suc k)) (0::nat)
        [''in.txt'' \<mapsto> ''hello\<newline>'']) = Some (Suc 0)"
proof -
  have c: "(\<lambda>k call. (Inl (ModelFailure ''out of memory''), Suc k)) (0::nat)
      (apc_call_of (text_args ''in.txt'' ''out.txt'') [JStr ''hello''])
     = (Inl (ModelFailure ''out of memory''), Suc 0)" by simp
  from main_propagates_model_failure
    [of "text_args ''in.txt'' ''out.txt''" "\<lambda>s. Inl JSONDecodeError"
        "[''in.txt'' \<mapsto> ''hello\<newline>'']" None "[JStr ''hello'']"
        "\<lambda>k call. (Inl (ModelFailure ''out of memory''), Suc k)" "0::nat"
        "ModelFailure ''out of memory''" "Suc 0" 0 "\<lambda>v. []", OF read_hello c]
  show ?thesis using read_hello by simp
qed

section \<open>Segmenter and Aggregator: errors and the empty query\<close>

declare seg_starts.simps [simp del]

lemma seg_starts_below:
  "off < n \<Longrightarrow> 0 < max_length \<Longrightarrow> \<forall>x \<in> set (seg_starts n max_length stp off). x < n"
proof (induction n max_length stp off rule: seg_starts.induct)
  case (1 n max_length stp off)
  show ?case
  proof (cases "n \<le> off + max_length \<or> stp = 0")
    case True
    then have "seg_starts n max_length stp off = [off]" by (subst seg_starts.simps) simp
    with "1.prems" show ?thesis by simp
  next
    case False
    note F1 = this
    show ?thesis
    proof (cases "n < off + stp + max_length")
      case True
      with F1 have "seg_starts n max_length stp off = [off, n - max_length]"
        by (subst seg_starts.simps) simp
      with F1 "1.prems" show ?thesis by auto
    next
      case False
      with F1 have e: "seg_starts n max_length stp off = off # seg_starts n max_length stp (off + stp)"
        by (subst seg_starts.simps) simp
      from False F1 have "off + stp < n" using "1.prems"(2) by simp
      from "1.IH" [OF F1 False this "1.prems"(2)] "1.prems" show ?thesis unfolding e by simp
    qed
  qed
qed

lemma mk_segments_lengths:
  "\<forall>x \<in> set starts. x < n \<Longrightarrow> 0 < max_length \<Longrightarrow>
   \<forall>s \<in> set (mk_segments n max_length first starts). 0 < seg_length s"
  by (induction starts arbitrary: first) auto

lemma labels_from_Nil: "aggregate 0 segments_with_outputs mrg = Inr []"
  by (simp add: aggregate_def)

text \<open>
  C6. The Segmenter fails, and then with \<open>ConfigurationError\<close>, exactly when
  \<open>max_length < 1\<close> or \<open>step > max_length\<close> or \<open>step < 1\<close>; with \<open>step > max_length\<close>
  the result is the error, so no Segment has been built.
\<close>

theorem segment_configuration_error:
  "(segment query max_length stp = Inl ConfigurationError)
     = (max_length < 1 \<or> stp > max_length \<or> stp < 1) \<and>
   (stp > max_length \<longrightarrow> segment query max_length stp = Inl ConfigurationError) \<and>
   (\<forall>e. segment query max_length stp = Inl e \<longrightarrow> e = ConfigurationError)"
  by (simp add: segment_def)

theorem segment_configuration_error_witness:
  "(3::int) > 2 \<and> segment ''hello'' 2 3 = Inl ConfigurationError \<and>
   segment ''hello'' 3 2 =
     Inr [\<lparr>start_offset = 0, seg_length = 3, is_first = True, is_last = False\<rparr>,
          \<lparr>start_offset = 2, seg_length = 3, is_first = False, is_last = True\<rparr>]"
proof -
  have a: "segment ''hello'' 3 2 =
     Inr [\<lparr>start_offset = 0, seg_length = 3, is_first = True, is_last = False\<rparr>,
          \<lparr>start_offset = 2, seg_length = 3, is_first = False, is_last = True\<rparr>]"
    by (simp add: segment_def seg_starts.simps)
  from segment_configuration_error [of "''hello''" 2 3] a show ?thesis by simp
qed

text \<open>
  C7. For an empty query and a valid configuration the Segmenter returns a single empty
  Segment, which is both first and last, and the Aggregator returns the empty label
  sequence for query length 0; neither fails. For a query that is not empty every Segment
  has at least one token.
\<close>

theorem empty_query:
  assumes "1 \<le> max_length" and "1 \<le> stp" and "stp \<le> max_length"
  shows "segment ([] :: 'a list) max_length stp =
           Inr [\<lparr>start_offset = 0, seg_length = 0, is_first = True, is_last = True\<rparr>] \<and>
         aggregate 0 segments_with_outputs mrg = Inr [] \<and>
         (\<forall>(query :: 'a list) segs. query \<noteq> [] \<and> segment query max_length stp = Inr segs \<longrightarrow>
            (\<forall>s \<in> set segs. 0 < seg_length s))"
proof -
  have 1: "segment [] max_length stp =
           Inr [\<lparr>start_offset = 0, seg_length = 0, is_first = True, is_last = True\<rparr>]"
    using assms by (simp add: segment_def seg_starts.simps)
  have 3: "\<forall>s \<in> set segs. 0 < seg_length s"
    if q: "query \<noteq> []" and s: "segment query max_length stp = Inr segs" for query :: "'a list" and segs
  proof -
    from s assms have segs: "segs = mk_segments (length query) (nat max_length) True
                  (seg_starts (length query) (nat max_length) (nat stp) 0)"
      by (simp add: segment_def)
    have n: "0 < length query" using q by simp
    have l: "0 < nat max_length" using assms(1) by simp
    from seg_starts_below [OF n l]
    have "\<forall>x \<in> set (seg_starts (length query) (nat max_length) (nat stp) 0). x < length query" .
    from mk_segments_lengths [OF this l] show ?thesis unfolding segs .
  qed
  have 2: "aggregate 0 segments_with_outputs mrg = Inr []" by (rule labels_from_Nil)
  from 3 have 4: "\<forall>(query :: 'a list) segs. query \<noteq> [] \<and> segment query max_length stp = Inr segs \<longrightarrow>
            (\<forall>s \<in> set segs. 0 < seg_length s)"
  proof (intro allI impI, elim conjE)
    fix query :: "'a list" and segs
    assume "query \<noteq> []" and "segment query max_length stp = Inr segs"
    then show "\<forall>s \<in> set segs. 0 < seg_length s" by (rule 3)
  qed
  show ?thesis by (intro conjI 1 2 4)
qed

theorem empty_query_witness:
  "(1::int) \<le> 3 \<and> (1::int) \<le> 2 \<and> (2::int) \<le> 3 \<and>
   segment ([] :: string list) 3 2 =
     Inr [\<lparr>start_offset = 0, seg_length = 0, is_first = True, is_last = True\<rparr>] \<and>
   aggregate 0 [(\<lparr>start_offset = 0, seg_length = 0, is_first = True, is_last = True\<rparr>, [])] 1 = Inr []"
proof -
  have "segment ([] :: string list) 3 2 =
     Inr [\<lparr>start_offset = 0, seg_length = 0, is_first = True, is_last = True\<rparr>] \<and>
   aggregate 0 [(\<lparr>start_offset = 0, seg_length = 0, is_first = True, is_last = True\<rparr>, [])] 1 = Inr [] \<and>
   (\<forall>(query :: string list) segs. query \<noteq> [] \<and> segment query 3 2 = Inr segs \<longrightarrow>
            (\<forall>s \<in> set segs. 0 < seg_length s))"
    by (rule empty_query) simp_all
  then show ?thesis by simp
qed

section \<open>Coverage after margin exclusion\<close>

lemma seg_starts_not_Nil: "seg_starts n max_length stp off \<noteq> []"
  by (subst seg_starts.simps) simp

lemma unmasked_plain:
  assumes "(if f then 0 else mrg) + (if l then 0 else mrg) < len"
  shows "unmasked mrg \<lparr>start_offset = off, seg_length = len, is_first = f, is_last = l\<rparr> i
         = (off + (if f then 0 else mrg) \<le> i \<and> i + (if l then 0 else mrg) < off + len)"
  using assms by (simp add: unmasked_def mask_def Let_def)

lemma coverage_from:
  "0 < stp \<Longrightarrow> stp + 2 * mrg \<le> max_length \<Longrightarrow>
   (if first then off else off + mrg) \<le> i \<Longrightarrow> i < n \<Longrightarrow>
   \<exists>s \<in> set (mk_segments n max_length first (seg_starts n max_length stp off)).
      unmasked mrg s i"
proof (induction n max_length stp off arbitrary: first rule: seg_starts.induct)
  case (1 n max_length stp off)
  note st = "1.prems"(1) and cfg = "1.prems"(2) and lo' = "1.prems"(3) and hi = "1.prems"(4)
  have lo: "off \<le> i" using lo' by (simp split: if_splits)
  let ?l0 = "if first then 0 else mrg"
  have lo0: "off + ?l0 \<le> i" using lo' by (simp split: if_splits)
  show ?case
  proof (cases "n \<le> off + max_length \<or> stp = 0")
    case True
    with st have c: "n \<le> off + max_length" by simp
    then have e: "seg_starts n max_length stp off = [off]" by (subst seg_starts.simps) simp
    have len: "min max_length (n - off) = n - off" using c by simp
    have "?l0 + (if True then 0 else mrg) < n - off" using lo0 hi by simp
    from unmasked_plain [OF this, of off i]
    have "unmasked mrg \<lparr>start_offset = off, seg_length = n - off, is_first = first, is_last = True\<rparr> i"
      using lo0 hi lo by simp
    then show ?thesis unfolding e by (simp add: len)
  next
    case False
    then have c1: "off + max_length < n" by simp
    have len: "min max_length (n - off) = max_length" using c1 by simp
    have nl: "?l0 + (if False then 0 else mrg) < max_length" using st cfg by simp
    note u1 = unmasked_plain [OF nl, of off i]
    show ?thesis
    proof (cases "n < off + stp + max_length")
      case True
      with False have e: "seg_starts n max_length stp off = [off, n - max_length]"
        by (subst seg_starts.simps) simp
      have len2: "min max_length (n - (n - max_length)) = max_length" using c1 by simp
      have "(if False then 0 else mrg) + (if True then 0 else mrg) < max_length"
        using st cfg by simp
      note u2 = unmasked_plain [OF this, of "n - max_length" i]
      show ?thesis
      proof (cases "i + mrg < off + max_length")
        case T: True
        with u1 lo0 have "unmasked mrg \<lparr>start_offset = off, seg_length = max_length,
            is_first = first, is_last = False\<rparr> i" by simp
        then show ?thesis unfolding e by (simp add: len)
      next
        case F: False
        have "n - max_length + mrg \<le> i" using F True cfg c1 by simp
        moreover have "i < n - max_length + max_length" using hi c1 by simp
        ultimately have "unmasked mrg \<lparr>start_offset = n - max_length, seg_length = max_length,
            is_first = False, is_last = True\<rparr> i" using u2 by simp
        then show ?thesis unfolding e by (simp add: len2)
      qed
    next
      case F2: False
      with False have e: "seg_starts n max_length stp off
                          = off # seg_starts n max_length stp (off + stp)"
        by (subst seg_starts.simps) simp
      have ne: "seg_starts n max_length stp (off + stp) \<noteq> []" by (rule seg_starts_not_Nil)
      show ?thesis
      proof (cases "i + mrg < off + max_length")
        case T: True
        with u1 lo0 have "unmasked mrg \<lparr>start_offset = off, seg_length = max_length,
            is_first = first, is_last = False\<rparr> i" by simp
        then show ?thesis unfolding e using ne by (simp add: len)
      next
        case F: False
        have "(if False then off + stp else off + stp + mrg) \<le> i" using F cfg by simp
        from "1.IH" [OF False F2 st cfg this hi]
        show ?thesis unfolding e by auto
      qed
    qed
  qed
qed

lemma unmasked_in_segment: "unmasked mrg s i \<Longrightarrow> i - start_offset s < seg_length s"
  by (auto simp: unmasked_def split: prod.splits)

lemma contributions_not_Nil:
  assumes "(s, out) \<in> set segments_with_outputs" and "unmasked mrg s i"
    and "length out = seg_length s"
  shows "contributions mrg segments_with_outputs i \<noteq> []"
proof -
  from assms(2,3) have "i - start_offset s < length out" by (simp add: unmasked_in_segment)
  with assms(1,2) have "(s, out) \<in> set (filter (\<lambda>(s, out). unmasked mrg s i \<and>
      i - start_offset s < length out) segments_with_outputs)" by simp
  then have "filter (\<lambda>(s, out). unmasked mrg s i \<and> i - start_offset s < length out)
      segments_with_outputs \<noteq> []" by (metis empty_iff empty_set)
  then show ?thesis by (simp add: contributions_def)
qed

lemma labels_from_total:
  "\<forall>i \<in> set ixs. contributions mrg so i \<noteq> [] \<Longrightarrow>
   \<exists>ls. labels_from mrg so ixs = Inr ls \<and> length ls = length ixs"
proof (induction ixs)
  case Nil
  show ?case by simp
next
  case (Cons i ixs)
  then obtain v vs where c: "contributions mrg so i = v # vs"
    by (cases "contributions mrg so i") auto
  from Cons obtain ls where ls: "labels_from mrg so ixs = Inr ls" "length ls = length ixs"
    by auto
  from c ls show ?case by (simp add: label_at_def)
qed

lemma zip_member:
  assumes "list_all2 P xs ys" and "x \<in> set xs"
  shows "\<exists>y. (x, y) \<in> set (zip xs ys) \<and> P x y"
proof -
  from assms(2) obtain k where k: "k < length xs" "xs ! k = x" by (auto simp: in_set_conv_nth)
  from assms(1) have l: "length xs = length ys" by (rule list_all2_lengthD)
  from assms(1) k have p: "P x (ys ! k)" by (auto simp: list_all2_conv_all_nth)
  from k l have "(x, ys ! k) \<in> set (zip xs ys)" by (auto simp: in_set_zip)
  with p show ?thesis by blast
qed

text \<open>
  C2. For every query and every configuration with \<open>max_length \<ge> 1\<close>, \<open>step \<ge> 1\<close> and
  \<open>step \<le> max_length - 2 * margin\<close>, the Segmenter succeeds and every token index below
  the query length is covered, outside the margins, by at least one of its Segments; so
  for outputs that hold one vector per token of each Segment the Aggregator returns one
  label per token and never a \<open>CoverageError\<close>.
\<close>

theorem coverage:
  assumes "1 \<le> max_length" and "1 \<le> stp" and "stp \<le> max_length - 2 * int mrg"
  shows "\<exists>segs. segment query max_length stp = Inr segs \<and>
           (\<forall>i < length query. \<exists>s \<in> set segs. unmasked mrg s i) \<and>
           (\<forall>outs. list_all2 (\<lambda>s out. length out = seg_length s) segs outs \<longrightarrow>
              (\<exists>labels. aggregate (length query) (zip segs outs) mrg = Inr labels \<and>
                        length labels = length query))"
proof -
  let ?n = "length query"
  let ?segs = "mk_segments ?n (nat max_length) True (seg_starts ?n (nat max_length) (nat stp) 0)"
  have s: "segment query max_length stp = Inr ?segs" using assms by (simp add: segment_def)
  have st: "0 < nat stp" using assms(2) by simp
  have cfg: "nat stp + 2 * mrg \<le> nat max_length" using assms by simp
  have cov: "\<exists>s \<in> set ?segs. unmasked mrg s i" if "i < ?n" for i
  proof -
    have "(if True then 0 else 0 + mrg) \<le> i" by simp
    from coverage_from [OF st cfg this that] show ?thesis .
  qed
  have agg: "\<exists>labels. aggregate ?n (zip ?segs outs) mrg = Inr labels \<and> length labels = ?n"
    if wf: "list_all2 (\<lambda>s out. length out = seg_length s) ?segs outs" for outs
  proof -
    have "\<forall>i \<in> set [0 ..< ?n]. contributions mrg (zip ?segs outs) i \<noteq> []"
    proof
      fix i assume "i \<in> set [0 ..< ?n]"
      then have "i < ?n" by simp
      from cov [OF this] obtain s where s: "s \<in> set ?segs" "unmasked mrg s i" by blast
      from zip_member [OF wf s(1)] obtain out where
        o: "(s, out) \<in> set (zip ?segs outs)" "length out = seg_length s" by blast
      from o(1) s(2) o(2) show "contributions mrg (zip ?segs outs) i \<noteq> []"
        by (rule contributions_not_Nil)
    qed
    from labels_from_total [OF this] show ?thesis by (simp add: aggregate_def)
  qed
  from s cov agg show ?thesis by blast
qed

theorem coverage_witness:
  "(1::int) \<le> 5 \<and> (1::int) \<le> 1 \<and> (1::int) \<le> 5 - 2 * int 2 \<and>
   segment ''abcdefg'' 5 1 =
     Inr [\<lparr>start_offset = 0, seg_length = 5, is_first = True, is_last = False\<rparr>,
          \<lparr>start_offset = 1, seg_length = 5, is_first = False, is_last = False\<rparr>,
          \<lparr>start_offset = 2, seg_length = 5, is_first = False, is_last = True\<rparr>] \<and>
   list_ex (\<lambda>s. unmasked 2 s 0)
        [\<lparr>start_offset = 0, seg_length = 5, is_first = True, is_last = False\<rparr>,
          \<lparr>start_offset = 1, seg_length = 5, is_first = False, is_last = False\<rparr>,
          \<lparr>start_offset = 2, seg_length = 5, is_first = False, is_last = True\<rparr>] \<and>
   list_ex (\<lambda>s. unmasked 2 s 3)
        [\<lparr>start_offset = 0, seg_length = 5, is_first = True, is_last = False\<rparr>,
          \<lparr>start_offset = 1, seg_length = 5, is_first = False, is_last = False\<rparr>,
          \<lparr>start_offset = 2, seg_length = 5, is_first = False, is_last = True\<rparr>] \<and>
   list_ex (\<lambda>s. unmasked 2 s 6)
        [\<lparr>start_offset = 0, seg_length = 5, is_first = True, is_last = False\<rparr>,
          \<lparr>start_offset = 1, seg_length = 5, is_first = False, is_last = False\<rparr>,
          \<lparr>start_offset = 2, seg_length = 5, is_first = False, is_last = True\<rparr>]"
proof -
  let ?S = "[\<lparr>start_offset = 0, seg_length = 5, is_first = True, is_last = False\<rparr>,
          \<lparr>start_offset = 1, seg_length = 5, is_first = False, is_last = False\<rparr>,
          \<lparr>start_offset = 2, seg_length = 5, is_first = False, is_last = True\<rparr>]"
  have a: "segment ''abcdefg'' 5 1 = Inr ?S"
    by (simp add: segment_def seg_starts.simps)
  have h1: "(1::int) \<le> 5" and h2: "(1::int) \<le> 1" and h3: "(1::int) \<le> 5 - 2 * int 2"
    by simp_all
  obtain segs where s: "segment ''abcdefg'' 5 1 = Inr segs"
    and c: "\<forall>i < length ''abcdefg''. \<exists>s \<in> set segs. unmasked 2 s i"
    using coverage [OF h1 h2 h3, of "''abcdefg''"] by (elim exE conjE)
  from s a have e: "segs = ?S" by simp
  from c have c0: "\<exists>s \<in> set segs. unmasked 2 s 0" by simp
  from c have c3: "\<exists>s \<in> set segs. unmasked 2 s 3" by simp
  from c have c6: "\<exists>s \<in> set segs. unmasked 2 s 6" by simp
  have l0: "list_ex (\<lambda>s. unmasked 2 s 0) ?S" using c0 unfolding e list_ex_iff .
  have l3: "list_ex (\<lambda>s. unmasked 2 s 3) ?S" using c3 unfolding e list_ex_iff .
  have l6: "list_ex (\<lambda>s. unmasked 2 s 6) ?S" using c6 unfolding e list_ex_iff .
  from a h1 h2 h3 l0 l3 l6 show ?thesis by (intro conjI)
qed

end
